theory Spec2Isabelle
  imports Complex_Main
begin

section \<open>Data model\<close>

text \<open>
  The graph state engine of the link-graph explorer (\<^verbatim>\<open>js/main_functions.js\<close>,
  \<^verbatim>\<open>js/bindings.js\<close>). The program keeps its state in global variables: the two
  keyed collections \<^verbatim>\<open>nodes\<close> and \<^verbatim>\<open>edges\<close>, the highlight variables
  \<^verbatim>\<open>window.isReset\<close>, \<^verbatim>\<open>window.selectedNode\<close>, \<^verbatim>\<open>window.traceedges\<close>,
  \<^verbatim>\<open>window.tracenodes\<close>, the root list \<^verbatim>\<open>window.startpages\<close> and the binding
  layer's \<^verbatim>\<open>lastClickedNode\<close>. Here they are the fields of one record that every
  operation takes and returns.
\<close>

datatype error = TypeError | URIError

text \<open>An edge colour is a CSS colour string or the object \<^verbatim>\<open>{ inherit: 'to' }\<close>.\<close>

datatype edge_color = Css string | InheritTo

record node =
  nid :: string
  label :: string
  level :: nat
  parent :: "string option"
  nvalue :: nat
  ncolor :: string
  pos_x :: "real option"
  pos_y :: "real option"
  font_color :: "string option"

record edge =
  eid :: nat
  efrom :: string
  eto :: string
  ecolor :: edge_color
  elevel :: nat
  selectionWidth :: nat
  hoverWidth :: nat
  width :: "nat option"

record state =
  nodes :: "node list"
  edges :: "edge list"
  isReset :: bool
  selectedNode :: "string option"
  traceedges :: "nat option list"
  tracenodes :: "string list"
  startpages :: "string list"
  lastClickedNode :: "string option"

text \<open>
  A call either completes with a value, or throws; a throw keeps the state the globals
  had reached when it happened.
\<close>

datatype 'a result = Done 'a state | Thrown error state

fun final :: "'a result \<Rightarrow> state" where
  "final (Done v s) = s"
| "final (Thrown e s) = s"

fun completed :: "'a result \<Rightarrow> bool" where
  "completed (Done v s) = True"
| "completed (Thrown e s) = False"

section \<open>Helper functions of other scripts\<close>

text \<open>
  The functions named in the \<^verbatim>\<open>/* global ... */\<close> header of
  \<^verbatim>\<open>main_functions.js\<close> whose bodies live elsewhere are parameters of the model:
  the identity normalizer, label wrapping, the colour tables, the spawn anchor reported by
  the visualization surface, and the two \<^verbatim>\<open>Math.random()\<close> draws of each loop round
  (as the offset they produce). \<^verbatim>\<open>decodeURIComponent\<close> is the built-in, which
  throws \<^verbatim>\<open>URIError\<close> on a malformed escape: \<open>None\<close> here.
\<close>

record env =
  getNormalizedId :: "string \<Rightarrow> string"
  wordwrap :: "string \<Rightarrow> nat \<Rightarrow> string"
  unwrap :: "string \<Rightarrow> string"
  decodeURIComponent :: "string \<Rightarrow> string option"
  getColor :: "nat \<Rightarrow> string"
  getHighlightColor :: "nat \<Rightarrow> string"
  getEdgeColor :: "nat \<Rightarrow> string"
  getSpawnPosition :: "string \<Rightarrow> real \<times> real"
  random_jitter :: "nat \<Rightarrow> real \<times> real"

section \<open>The graph store\<close>

text \<open>
  Modelled from the spec: the node and edge collections are data sets of the
  visualization library, whose code is not part of the scripts. Section 4.2 of the
  specification gives their contract: queries return snapshots in insertion order; \<^verbatim>\<open>get(id)\<close> of an absent id
  is \<^verbatim>\<open>null\<close> (the source tests \<^verbatim>\<open>nodes.get(newId)\<close> and filters
  \<^verbatim>\<open>n !== null\<close>); adding an id that exists is a no-op; adding an edge whose ordered
  pair is already connected is a no-op; removing a node removes its incident edges first;
  an update merges a patch into the record with the patch's id. Edge ids are generated by
  the store; a fresh number stands for the generated identifier.
\<close>

definition nodes_get :: "state \<Rightarrow> string \<Rightarrow> node option" where
  "nodes_get s i = find (\<lambda>n. nid n = i) (nodes s)"

definition getIds :: "state \<Rightarrow> string list" where
  "getIds s = map nid (nodes s)"

fun add_records :: "node list \<Rightarrow> node list \<Rightarrow> node list" where
  "add_records [] stored = stored"
| "add_records (n # ns) stored =
     add_records ns (if nid n \<in> set (map nid stored) then stored else stored @ [n])"

definition nodes_add :: "node list \<Rightarrow> state \<Rightarrow> state" where
  "nodes_add ns s = s\<lparr>nodes := add_records ns (nodes s)\<rparr>"

definition nodes_remove :: "string \<Rightarrow> state \<Rightarrow> state" where
  "nodes_remove i s =
     s\<lparr>edges := filter (\<lambda>e. efrom e \<noteq> i \<and> eto e \<noteq> i) (edges s),
       nodes := filter (\<lambda>n. nid n \<noteq> i) (nodes s)\<rparr>"

text \<open>
  An update is a list of patches, each addressed to an id and applied in order. A patch
  is a function on the stored record: \<open>\<lambda>d. d\<lparr>width := w\<rparr>\<close> for an update object that
  sets one field, \<open>\<lambda>d. e'\<close> for an object that carries every field (a modified copy
  \<^verbatim>\<open>{ ...e, from: newId }\<close> of a record read earlier). Every update in the scripts
  is addressed to ids it has just read from the same store; a patch for an id that the
  store does not hold changes nothing here.
\<close>

fun apply_patches :: "('a \<Rightarrow> 'k) \<Rightarrow> ('k \<times> ('a \<Rightarrow> 'a)) list \<Rightarrow> 'a list \<Rightarrow> 'a list" where
  "apply_patches key [] stored = stored"
| "apply_patches key ((i, f) # ps) stored =
     apply_patches key ps (map (\<lambda>r. if key r = i then f r else r) stored)"

definition nodes_patch :: "(string \<times> (node \<Rightarrow> node)) list \<Rightarrow> state \<Rightarrow> state" where
  "nodes_patch ps s = s\<lparr>nodes := apply_patches nid ps (nodes s)\<rparr>"

definition edges_patch :: "(nat \<times> (edge \<Rightarrow> edge)) list \<Rightarrow> state \<Rightarrow> state" where
  "edges_patch ps s = s\<lparr>edges := apply_patches eid ps (edges s)\<rparr>"

definition connecting :: "edge list \<Rightarrow> string \<Rightarrow> string \<Rightarrow> nat option" where
  "connecting es a b = map_option eid (find (\<lambda>e. efrom e = a \<and> eto e = b) es)"

definition getEdgeConnecting :: "state \<Rightarrow> string \<Rightarrow> string \<Rightarrow> nat option" where
  "getEdgeConnecting s a b = connecting (edges s) a b"

definition fresh_eid :: "edge list \<Rightarrow> nat" where
  "fresh_eid es = Suc (fold max (map eid es) 0)"

fun add_edge_records :: "edge list \<Rightarrow> edge list \<Rightarrow> edge list" where
  "add_edge_records [] stored = stored"
| "add_edge_records (e # es) stored =
     add_edge_records es
       (if connecting stored (efrom e) (eto e) = None
        then stored @ [e\<lparr>eid := fresh_eid stored\<rparr>] else stored)"

definition edges_add :: "edge list \<Rightarrow> state \<Rightarrow> state" where
  "edges_add es s = s\<lparr>edges := add_edge_records es (edges s)\<rparr>"

text \<open>
  Modelled from the spec: the visualization surface's adjacency queries
  (\<^verbatim>\<open>network.getConnectedEdges\<close>, \<^verbatim>\<open>network.getConnectedNodes\<close>), the edges and
  nodes immediately adjacent to a node.
\<close>

definition getConnectedEdges :: "state \<Rightarrow> string \<Rightarrow> nat list" where
  "getConnectedEdges s n = map eid (filter (\<lambda>e. efrom e = n \<or> eto e = n) (edges s))"

definition getConnectedNodes :: "state \<Rightarrow> string \<Rightarrow> string list" where
  "getConnectedNodes s n =
     remdups (map (\<lambda>e. if efrom e = n then eto e else efrom e)
       (filter (\<lambda>e. efrom e = n \<or> eto e = n) (edges s)))"

text \<open>
  Modelled from the spec: \<^verbatim>\<open>updateNodeValue(id)\<close> recomputes the node's visual weight,
  which equals its current degree (the number of incident edges); \<^verbatim>\<open>colorNodes(ns, c)\<close>
  recolours the given node records from their level, with the highlight table when
  \<^verbatim>\<open>c\<close> is set and the default table otherwise, leaving every other attribute and
  the position as stored.
\<close>

definition updateNodeValue :: "string \<Rightarrow> state \<Rightarrow> state" where
  "updateNodeValue i s =
     nodes_patch [(i, \<lambda>n. n\<lparr>nvalue := length (getConnectedEdges s i)\<rparr>)] s"

definition colorNodes :: "env \<Rightarrow> node list \<Rightarrow> bool \<Rightarrow> state \<Rightarrow> state" where
  "colorNodes env ns c s =
     nodes_patch
       (map (\<lambda>n. (nid n, \<lambda>m. m\<lparr>ncolor := (if c then getHighlightColor env else getColor env) (level n)\<rparr>)) ns)
       s"

section \<open>Rename and merge\<close>

text \<open>
  \<^verbatim>\<open>renameNode\<close>, lines 21 to 30: one \<^verbatim>\<open>edges.update\<close> call on the concatenation of
  two lists of edge copies, both read from the store before the call. Each copy carries
  every field of the edge as read, with one endpoint replaced; the store applies the
  copies in order.
\<close>

definition repointEdges :: "string \<Rightarrow> string \<Rightarrow> state \<Rightarrow> state" where
  "repointEdges oldId newId s =
     edges_patch
       (map (\<lambda>e. (eid e, \<lambda>d. e\<lparr>efrom := newId\<rparr>)) (filter (\<lambda>e. efrom e = oldId) (edges s)) @
        map (\<lambda>e. (eid e, \<lambda>d. e\<lparr>eto := newId\<rparr>)) (filter (\<lambda>e. eto e = oldId) (edges s)))
       s"

text \<open>
  Lines 32 to 41: merge into the node that already has the new id, or re-identify the
  old record. \<^verbatim>\<open>oldNode\<close> was read on line 16; reading \<^verbatim>\<open>oldNode.level\<close> of
  \<^verbatim>\<open>null\<close> throws after \<^verbatim>\<open>nodes.remove(oldId)\<close> has run.
\<close>

definition mergeOrReidentify ::
  "env \<Rightarrow> node option \<Rightarrow> string \<Rightarrow> string \<Rightarrow> string \<Rightarrow> state \<Rightarrow> unit result" where
  "mergeOrReidentify env oldNode oldId newId newName s =
     (if nodes_get s newId \<noteq> None
      then Done () (nodes_patch [(newId, \<lambda>n. n\<lparr>label := newName\<rparr>)] (nodes_remove oldId s))
      else (case oldNode of
              None \<Rightarrow> Thrown TypeError (nodes_remove oldId s)
            | Some old \<Rightarrow>
                Done ()
                  (nodes_add
                     [old\<lparr>nid := newId,
                          label := wordwrap env newName (if level old = 0 then 20 else 15)\<rparr>]
                     (nodes_remove oldId s))))"

text \<open>Lines 43 to 47: nodes whose parent was the old node.\<close>

definition repointParents :: "string \<Rightarrow> string \<Rightarrow> state \<Rightarrow> state" where
  "repointParents oldId newId s =
     nodes_patch
       (map (\<lambda>n. (nid n, \<lambda>d. n\<lparr>parent := Some newId\<rparr>))
          (filter (\<lambda>n. parent n = Some oldId) (nodes s)))
       s"

text \<open>Lines 49 to 52: the selection, the trace and the root list follow the rename.\<close>

definition moveHighlight :: "string \<Rightarrow> string \<Rightarrow> state \<Rightarrow> state" where
  "moveHighlight oldId newId s =
     s\<lparr>selectedNode := (if selectedNode s = Some oldId then Some newId else selectedNode s),
       tracenodes := map (\<lambda>i. if i = oldId then newId else i) (tracenodes s),
       startpages := map (\<lambda>i. if i = oldId then newId else i) (startpages s)\<rparr>"

definition renameNode :: "env \<Rightarrow> state \<Rightarrow> string \<Rightarrow> string \<Rightarrow> string result" where
  "renameNode env s oldId newName =
     (let oldNode = nodes_get s oldId;
          newId = getNormalizedId env newName
      in if newId = oldId then Done oldId s
         else (case mergeOrReidentify env oldNode oldId newId newName (repointEdges oldId newId s) of
                 Thrown e t \<Rightarrow> Thrown e t
               | Done u s2 \<Rightarrow> Done newId (moveHighlight oldId newId (repointParents oldId newId s2))))"

section \<open>Expansion\<close>

text \<open>
  The loop of \<^verbatim>\<open>expandNodeCallback\<close> (lines 70 to 103). Both existence checks read
  the store, which the loop does not change: the new records are collected in
  \<^verbatim>\<open>subnodes\<close> and \<^verbatim>\<open>newedges\<close> and added after the loop. A new edge has no id
  until the store gives it one; \<open>eid = 0\<close> is the placeholder.
\<close>

fun createNodeObjects ::
  "env \<Rightarrow> state \<Rightarrow> string \<Rightarrow> nat \<Rightarrow> real \<times> real \<Rightarrow> nat \<Rightarrow> string list \<Rightarrow>
     node list \<times> edge list \<Rightarrow> error + (node list \<times> edge list)" where
  "createNodeObjects env s page lvl start i [] acc = Inr acc"
| "createNodeObjects env s page lvl start i (subpage # rest) (subnodes, newedges) =
     (let subpageID = getNormalizedId env subpage in
      case (if subpageID \<notin> set (getIds s)
            then (case decodeURIComponent env subpage of
                    None \<Rightarrow> Inl URIError
                  | Some decoded \<Rightarrow>
                      Inr (subnodes @
                        [\<lparr>nid = subpageID, label = wordwrap env decoded 15, level = lvl,
                          parent = Some page, nvalue = 1, ncolor = getColor env lvl,
                          pos_x = Some (fst start + fst (random_jitter env i)),
                          pos_y = Some (snd start + snd (random_jitter env i)),
                          font_color = None\<rparr>]))
            else Inr subnodes) of
        Inl e \<Rightarrow> Inl e
      | Inr subnodes' \<Rightarrow>
          createNodeObjects env s page lvl start (Suc i) rest
            (subnodes',
             if getEdgeConnecting s page subpageID = None
             then newedges @
               [\<lparr>eid = 0, efrom = page, eto = subpageID, ecolor = Css (getEdgeColor env lvl),
                 elevel = lvl, selectionWidth = 2, hoverWidth = 0, width = None\<rparr>]
             else newedges))"

definition expandNodeCallback :: "env \<Rightarrow> state \<Rightarrow> string \<Rightarrow> string list \<Rightarrow> unit result" where
  "expandNodeCallback env s page data =
     (case nodes_get s page of
        None \<Rightarrow> Thrown TypeError s
      | Some node \<Rightarrow>
          (case createNodeObjects env s page (level node + 1) (getSpawnPosition env page) 0 data ([], []) of
             Inl e \<Rightarrow> Thrown e s
           | Inr (subnodes, newedges) \<Rightarrow>
               Done ()
                 (fold (\<lambda>subpage. updateNodeValue (getNormalizedId env subpage)) data
                    (updateNodeValue page (edges_add newedges (nodes_add subnodes s))))))"

text \<open>
  The link source. \<^verbatim>\<open>getSubPages\<close> returns a promise; \<open>fetched\<close> is the outcome of
  the request chain inside it (the API call and the extraction of the canonical name and
  the links). With the people-only switch on, the chain ends in a \<^verbatim>\<open>.catch\<close> that
  resolves to the page's own name and no links; with the switch off a failure rejects.
\<close>

datatype 'a promise = Resolved 'a | Rejected

definition getSubPages ::
  "bool \<Rightarrow> string \<Rightarrow> (string \<times> string list) promise \<Rightarrow> (string \<times> string list) promise" where
  "getSubPages isPeopleMode pageName fetched =
     (if isPeopleMode
      then (case fetched of Rejected \<Rightarrow> Resolved (pageName, []) | Resolved r \<Rightarrow> Resolved r)
      else fetched)"



section \<open>Traceback\<close>

text \<open>
  \<^verbatim>\<open>getTraceBackNodes\<close>. One round of the \<^verbatim>\<open>while\<close> loop: push the current node,
  test it against the root list, read its parent (\<^verbatim>\<open>nodes.get(currentNode).parent\<close>),
  then the failsafe on the iteration count. Reading \<^verbatim>\<open>.parent\<close> of \<^verbatim>\<open>null\<close>, the
  store's answer for an id it does not hold, throws. A node without a parent yields
  \<^verbatim>\<open>undefined\<close> (\<open>None\<close>); the store answers \<^verbatim>\<open>get(undefined)\<close> with the array of
  all records, whose \<^verbatim>\<open>.parent\<close> is \<^verbatim>\<open>undefined\<close> again. From then on the loop can
  only leave through the failsafe, so the \<^verbatim>\<open>undefined\<close> entries that the source pushes
  onto a path it will discard are not recorded here.
\<close>

definition parentOf :: "state \<Rightarrow> string option \<Rightarrow> error + string option" where
  "parentOf s currentNode =
     (case currentNode of
        None \<Rightarrow> Inr None
      | Some c \<Rightarrow> (case nodes_get s c of None \<Rightarrow> Inl TypeError | Some n \<Rightarrow> Inr (parent n)))"

definition pushed :: "string list \<Rightarrow> string option \<Rightarrow> string list" where
  "pushed path currentNode = (case currentNode of None \<Rightarrow> path | Some c \<Rightarrow> path @ [c])"

definition isStart :: "state \<Rightarrow> string option \<Rightarrow> bool" where
  "isStart s currentNode = (case currentNode of None \<Rightarrow> False | Some c \<Rightarrow> c \<in> set (startpages s))"

function traceLoop ::
  "state \<Rightarrow> string option \<Rightarrow> nat \<Rightarrow> string list \<Rightarrow> error + string list" where
  "traceLoop s currentNode iterations path =
     (case parentOf s currentNode of
        Inl e \<Rightarrow> Inl e
      | Inr p \<Rightarrow>
          if 100 < iterations then Inr []
          else if isStart s currentNode then Inr (pushed path currentNode)
          else traceLoop s p (Suc iterations) (pushed path currentNode))"
  by pat_completeness auto
termination
  by (relation "measure (\<lambda>(s, c, iterations, path). 101 - iterations)") auto

definition getTraceBackNodes :: "state \<Rightarrow> string \<Rightarrow> error + string list" where
  "getTraceBackNodes s node = traceLoop s (Some node) 0 []"

text \<open>
  \<^verbatim>\<open>getTraceBackEdges\<close> reverses its argument in place and pushes the result of every
  lookup; the lookup of a pair that no edge connects is \<^verbatim>\<open>undefined\<close> (\<open>None\<close>). The
  pair returned here is the reversed array and the path.
\<close>

function edgeLoop :: "state \<Rightarrow> string list \<Rightarrow> nat \<Rightarrow> nat option list \<Rightarrow> nat option list" where
  "edgeLoop s tbnodes i path =
     (if Suc i < length tbnodes
      then edgeLoop s tbnodes (Suc i) (path @ [getEdgeConnecting s (tbnodes ! i) (tbnodes ! Suc i)])
      else path)"
  by pat_completeness auto
termination
  by (relation "measure (\<lambda>(s, tbnodes, i, path). length tbnodes - i)") auto

definition getTraceBackEdges :: "state \<Rightarrow> string list \<Rightarrow> string list \<times> nat option list" where
  "getTraceBackEdges s tbnodes = (rev tbnodes, edgeLoop s (rev tbnodes) 0 [])"

section \<open>The highlight state machine\<close>

text \<open>
  The edge updates of \<^verbatim>\<open>resetProperties\<close> (lines 178 to 183): the colour is read from
  the level of the edge's target node, \<^verbatim>\<open>nodes.get(e.to).level\<close>, which throws when
  the target is not in the store.
\<close>

fun resetEdgeUpdates ::
  "env \<Rightarrow> state \<Rightarrow> edge list \<Rightarrow> error + (nat \<times> (edge \<Rightarrow> edge)) list" where
  "resetEdgeUpdates env s [] = Inr []"
| "resetEdgeUpdates env s (e # es) =
     (case nodes_get s (eto e) of
        None \<Rightarrow> Inl TypeError
      | Some t \<Rightarrow>
          (case resetEdgeUpdates env s es of
             Inl err \<Rightarrow> Inl err
           | Inr ups \<Rightarrow>
               Inr ((eid e, \<lambda>d. d\<lparr>width := Some 1, ecolor := Css (getEdgeColor env (level t))\<rparr>) # ups)))"

text \<open>
  Lines 163 to 175 of \<^verbatim>\<open>resetProperties\<close>: clear the selection, recolour the trace
  nodes that are still in the store, restore the text colour of every node.
\<close>

definition resetNodes :: "env \<Rightarrow> state \<Rightarrow> state" where
  "resetNodes env s =
     (let s1 = s\<lparr>selectedNode := None\<rparr>;
          modnodes = List.map_filter (nodes_get s1) (tracenodes s1);
          s2 = (if 0 < length modnodes then colorNodes env modnodes False s1 else s1)
      in nodes_patch
           (map (\<lambda>n. (nid n, \<lambda>d. d\<lparr>font_color := Some ''rgba(0, 0, 0, 1)''\<rparr>)) (nodes s2)) s2)"

definition resetProperties :: "env \<Rightarrow> state \<Rightarrow> unit result" where
  "resetProperties env s =
     (if \<not> isReset s then
        (let s3 = resetNodes env s in
         case resetEdgeUpdates env s3 (edges s3) of
           Inl err \<Rightarrow> Thrown err s3
         | Inr edgeUpdates \<Rightarrow>
             Done () ((edges_patch edgeUpdates s3)\<lparr>tracenodes := [], traceedges := [], isReset := True\<rparr>))
      else Done () s)"

text \<open>
  The edge updates of \<^verbatim>\<open>traceBack\<close> (lines 209 to 235): traced first, then connected,
  then everything else.
\<close>

fun traceEdgeUpdates ::
  "env \<Rightarrow> state \<Rightarrow> nat list \<Rightarrow> edge list \<Rightarrow> error + (nat \<times> (edge \<Rightarrow> edge)) list" where
  "traceEdgeUpdates env s connectedEdges [] = Inr []"
| "traceEdgeUpdates env s connectedEdges (e # es) =
     (case (if Some (eid e) \<in> set (traceedges s)
            then Inr (eid e, \<lambda>d. d\<lparr>width := Some 5, ecolor := InheritTo\<rparr>)
            else if eid e \<in> set connectedEdges
            then (case nodes_get s (eto e) of
                    None \<Rightarrow> Inl TypeError
                  | Some t \<Rightarrow>
                      Inr (eid e, \<lambda>d. d\<lparr>width := Some 3, ecolor := Css (getEdgeColor env (level t))\<rparr>))
            else Inr (eid e, \<lambda>d. d\<lparr>width := Some 1, ecolor := Css ''rgba(122, 206, 247, 0.4)''\<rparr>)) of
        Inl err \<Rightarrow> Inl err
      | Inr up \<Rightarrow>
          (case traceEdgeUpdates env s connectedEdges es of
             Inl err \<Rightarrow> Inl err
           | Inr ups \<Rightarrow> Inr (up # ups)))"

text \<open>
  The body of \<^verbatim>\<open>traceBack\<close> after the reset pass, in the order of the source:
  lines 196 and 197; lines 200 and 201 (the assignment to \<^verbatim>\<open>window.tracenodes\<close> is
  reversed in place by \<^verbatim>\<open>getTraceBackEdges\<close>); the node update of lines 239 to 248;
  and the whole of lines 196 to 252. The last step reads the level of every trace node
  for \<^verbatim>\<open>colorNodes\<close>, which throws for a trace node that the store does not hold.
\<close>

definition markSelected :: "state \<Rightarrow> string \<Rightarrow> state" where
  "markSelected s node = s\<lparr>selectedNode := Some node, isReset := False\<rparr>"

definition recordTrace :: "state \<Rightarrow> string list \<Rightarrow> state" where
  "recordTrace s tb =
     s\<lparr>tracenodes := fst (getTraceBackEdges s tb), traceedges := snd (getTraceBackEdges s tb)\<rparr>"

definition dimNodes :: "state \<Rightarrow> string \<Rightarrow> string list \<Rightarrow> state" where
  "dimNodes s node connectedNodes =
     nodes_patch
       (map (\<lambda>i. (i, \<lambda>d. d\<lparr>font_color :=
                 Some (if i = node \<or> i \<in> set (tracenodes s) \<or> i \<in> set connectedNodes
                       then ''rgba(0, 0, 0, 1)'' else ''rgba(0, 0, 0, 0.3)'')\<rparr>))
          (getIds s))
       s"

definition highlight :: "env \<Rightarrow> state \<Rightarrow> string \<Rightarrow> unit result" where
  "highlight env s0 node =
     (let s1 = markSelected s0 node in
      case getTraceBackNodes s1 node of
        Inl err \<Rightarrow> Thrown err s1
      | Inr tb \<Rightarrow>
          (let s2 = recordTrace s1 tb;
               connectedEdges = getConnectedEdges s2 node;
               connectedNodes = getConnectedNodes s2 node
           in case traceEdgeUpdates env s2 connectedEdges (edges s2) of
                Inl err \<Rightarrow> Thrown err s2
              | Inr edgeUpdates \<Rightarrow>
                  (let s4 = dimNodes (edges_patch edgeUpdates s2) node connectedNodes
                   in case those (map (nodes_get s4) (tracenodes s4)) of
                        None \<Rightarrow> Thrown TypeError s4
                      | Some modnodes \<Rightarrow> Done () (colorNodes env modnodes True s4))))"

definition traceBack :: "env \<Rightarrow> state \<Rightarrow> string \<Rightarrow> unit result" where
  "traceBack env s node =
     (if selectedNode s = Some node then Done () s
      else (case resetProperties env s of
              Thrown e t \<Rightarrow> Thrown e t
            | Done u s0 \<Rightarrow> highlight env s0 node))"

section \<open>Removal\<close>

text \<open>
  The part of \<^verbatim>\<open>removeNodeEvent\<close> after the reset: capture the neighbours, remove the
  node, forget it as the last clicked node, recompute the neighbours' weights.
\<close>

definition removeAndResize :: "state \<Rightarrow> string \<Rightarrow> state" where
  "removeAndResize s nodeId =
     (let neighbors = getConnectedNodes s nodeId;
          s1 = nodes_remove nodeId s;
          s2 = s1\<lparr>lastClickedNode :=
                   (if lastClickedNode s1 = Some nodeId then None else lastClickedNode s1)\<rparr>
      in fold updateNodeValue neighbors s2)"

text \<open>
  \<^verbatim>\<open>removeNodeEvent\<close> of \<^verbatim>\<open>js/bindings.js\<close>; \<open>nodeAt\<close> is what
  \<^verbatim>\<open>network.getNodeAt\<close> reported under the pointer, and \<^verbatim>\<open>if (nodeId)\<close> rejects
  both \<^verbatim>\<open>undefined\<close> and the empty string.
\<close>

definition removeNodeEvent :: "env \<Rightarrow> state \<Rightarrow> string option \<Rightarrow> unit result" where
  "removeNodeEvent env s nodeAt =
     (case nodeAt of
        None \<Rightarrow> Done () s
      | Some nodeId \<Rightarrow>
          if nodeId = [] then Done () s
          else (case (if \<not> isReset s then resetProperties env s else Done () s) of
                  Thrown e t \<Rightarrow> Thrown e t
                | Done u s1 \<Rightarrow> Done () (removeAndResize s1 nodeId)))"

text \<open>
  The earlier revision of the same handler (the binding script without suggestions): it
  resets only when the node is the selection or is part of the trace.
\<close>

definition removeNodeEvent_guarded :: "env \<Rightarrow> state \<Rightarrow> string option \<Rightarrow> unit result" where
  "removeNodeEvent_guarded env s nodeAt =
     (case nodeAt of
        None \<Rightarrow> Done () s
      | Some nodeId \<Rightarrow>
          if nodeId = [] then Done () s
          else (case (if \<not> isReset s \<and> (selectedNode s = Some nodeId \<or> nodeId \<in> set (tracenodes s))
                      then resetProperties env s else Done () s) of
                  Thrown e t \<Rightarrow> Thrown e t
                | Done u s1 \<Rightarrow> Done () (removeAndResize s1 nodeId)))"

text \<open>
  The click handler of the button that removes the selected node (in \<^verbatim>\<open>bind\<close>, the
  same in every revision): the target is \<^verbatim>\<open>window.selectedNode || lastClickedNode\<close>,
  the neighbours are captured first, and the reset is called without a test.
\<close>

definition removeSelectedClick :: "env \<Rightarrow> state \<Rightarrow> unit result" where
  "removeSelectedClick env s =
     (let nodeToRemove =
            (case selectedNode s of
               None \<Rightarrow> lastClickedNode s
             | Some n \<Rightarrow> if n = [] then lastClickedNode s else Some n)
      in case nodeToRemove of
           None \<Rightarrow> Done () s
         | Some n \<Rightarrow>
             if n = [] then Done () s
             else (let neighbors = getConnectedNodes s n in
                   case resetProperties env s of
                     Thrown e t \<Rightarrow> Thrown e t
                   | Done u s1 \<Rightarrow>
                       Done ()
                         (fold updateNodeValue neighbors
                            ((nodes_remove n s1)\<lparr>selectedNode := None, lastClickedNode := None\<rparr>))))"

section \<open>Auxiliary notions for the proofs\<close>

text \<open>
  What a list of patches does to one record with key \<open>k\<close>: the patches addressed to
  \<open>k\<close>, applied in order.
\<close>

definition patch_for :: "'k \<Rightarrow> ('k \<times> ('a \<Rightarrow> 'a)) list \<Rightarrow> 'a \<Rightarrow> 'a" where
  "patch_for k ps r = fold (\<lambda>(i, f) r. if i = k then f r else r) ps r"



text \<open>Every parent recorded in the store is the id of a stored node.\<close>

definition parentsStored :: "state \<Rightarrow> bool" where
  "parentsStored s =
     list_all (\<lambda>n. case parent n of None \<Rightarrow> True | Some p \<Rightarrow> p \<in> set (getIds s)) (nodes s)"

text \<open>A state whose flag says reset has nothing selected and nothing traced.\<close>

definition resetMeansClear :: "state \<Rightarrow> bool" where
  "resetMeansClear s =
     (if isReset s then selectedNode s = None \<and> tracenodes s = [] \<and> traceedges s = [] else True)"

section \<open>Concrete graphs\<close>

text \<open>
  One instance of the helper functions and a few small graphs, on which the theorems
  below are exercised. The normalizer of the instance drops underscores, so that
  \<open>''n_ew''\<close> and \<open>''new''\<close> name the same node.
\<close>

definition demo_env :: env where
  "demo_env =
     \<lparr>getNormalizedId = filter (\<lambda>c. c \<noteq> CHR ''_''),
      wordwrap = (\<lambda>name n. name),
      unwrap = (\<lambda>name. name),
      decodeURIComponent = (\<lambda>name. if CHR ''%'' \<in> set name then None else Some name),
      getColor = (\<lambda>l. if l = 0 then ''c0'' else ''c1''),
      getHighlightColor = (\<lambda>l. ''yellow''),
      getEdgeColor = (\<lambda>l. if l = 0 then ''e0'' else ''e1''),
      getSpawnPosition = (\<lambda>page. (0, 0)),
      random_jitter = (\<lambda>i. (5, 0))\<rparr>"

definition mk_node :: "string \<Rightarrow> nat \<Rightarrow> string option \<Rightarrow> node" where
  "mk_node i l p =
     \<lparr>nid = i, label = i, level = l, parent = p, nvalue = 1, ncolor = ''c'',
      pos_x = Some 1, pos_y = Some 2, font_color = None\<rparr>"

definition mk_edge :: "nat \<Rightarrow> string \<Rightarrow> string \<Rightarrow> edge" where
  "mk_edge i a b =
     \<lparr>eid = i, efrom = a, eto = b, ecolor = Css ''e'', elevel = 1, selectionWidth = 2,
      hoverWidth = 0, width = None\<rparr>"

text \<open>The globals as lines 7 to 10 initialise them, around a given graph and root list.\<close>

definition mk_state :: "node list \<Rightarrow> edge list \<Rightarrow> string list \<Rightarrow> state" where
  "mk_state ns es roots =
     \<lparr>nodes = ns, edges = es, isReset = True, selectedNode = None, traceedges = [],
      tracenodes = [], startpages = roots, lastClickedNode = None\<rparr>"

text \<open>A root \<open>r\<close> with children \<open>old\<close> and \<open>new\<close>; \<open>old\<close> has a child \<open>kid\<close>.\<close>

definition family :: state where
  "family =
     mk_state
       [mk_node ''r'' 0 None, mk_node ''old'' 1 (Some ''r''), mk_node ''new'' 1 (Some ''r''),
        mk_node ''kid'' 2 (Some ''old'')]
       [mk_edge 1 ''r'' ''old'', mk_edge 2 ''r'' ''new'', mk_edge 3 ''old'' ''kid'']
       [''r'']"

text \<open>
  The family after \<open>old\<close> has been expanded and its page turned out to link to
  itself: the expansion adds the edge from \<open>old\<close> to \<open>old\<close>.
\<close>

definition family_selflinked :: state where
  "family_selflinked = final (expandNodeCallback demo_env family ''old'' [''old''])"

text \<open>A root and a child whose parent pointer has no edge beside it.\<close>

definition unlinked :: state where
  "unlinked = mk_state [mk_node ''r'' 0 None, mk_node ''old'' 1 (Some ''r'')] [] [''r'']"

text \<open>The family after the user has selected \<open>kid\<close>.\<close>

definition family_traced :: state where
  "family_traced = final (traceBack demo_env family ''kid'')"

section \<open>The store operations keep what they do not address\<close>

lemma apply_patches_keys:
  "(\<And>i f r. (i, f) \<in> set ps \<Longrightarrow> key r = i \<Longrightarrow> key (f r) = i) \<Longrightarrow>
   map key (apply_patches key ps stored) = map key stored"
proof (induction ps arbitrary: stored)
  case Nil
  then show ?case by simp
next
  case (Cons p ps)
  obtain i f where p: "p = (i, f)" by (cases p)
  have step: "map key (map (\<lambda>r. if key r = i then f r else r) stored) = map key stored"
    using Cons.prems [of i f] by (simp add: p)
  have "map key (apply_patches key ps (map (\<lambda>r. if key r = i then f r else r) stored))
          = map key (map (\<lambda>r. if key r = i then f r else r) stored)"
    by (rule Cons.IH) (use Cons.prems in auto)
  with step show ?case by (simp add: p)
qed

lemma nodes_get_None: "nodes_get s i = None \<longleftrightarrow> i \<notin> set (getIds s)"
  by (auto simp: nodes_get_def getIds_def find_None_iff)

lemma nodes_get_Some_nid: "nodes_get s i = Some n \<Longrightarrow> nid n = i \<and> n \<in> set (nodes s)"
  by (auto simp: nodes_get_def find_Some_iff)

lemma nodes_patch_fields [simp]:
  "edges (nodes_patch ps s) = edges s"
  "isReset (nodes_patch ps s) = isReset s"
  "selectedNode (nodes_patch ps s) = selectedNode s"
  "traceedges (nodes_patch ps s) = traceedges s"
  "tracenodes (nodes_patch ps s) = tracenodes s"
  "startpages (nodes_patch ps s) = startpages s"
  "lastClickedNode (nodes_patch ps s) = lastClickedNode s"
  by (simp_all add: nodes_patch_def)

lemma edges_patch_fields [simp]:
  "nodes (edges_patch ps s) = nodes s"
  "isReset (edges_patch ps s) = isReset s"
  "selectedNode (edges_patch ps s) = selectedNode s"
  "traceedges (edges_patch ps s) = traceedges s"
  "tracenodes (edges_patch ps s) = tracenodes s"
  "startpages (edges_patch ps s) = startpages s"
  "lastClickedNode (edges_patch ps s) = lastClickedNode s"
  by (simp_all add: edges_patch_def)

lemma nodes_remove_fields [simp]:
  "isReset (nodes_remove i s) = isReset s"
  "selectedNode (nodes_remove i s) = selectedNode s"
  "traceedges (nodes_remove i s) = traceedges s"
  "tracenodes (nodes_remove i s) = tracenodes s"
  "startpages (nodes_remove i s) = startpages s"
  "lastClickedNode (nodes_remove i s) = lastClickedNode s"
  "nodes (nodes_remove i s) = filter (\<lambda>n. nid n \<noteq> i) (nodes s)"
  "edges (nodes_remove i s) = filter (\<lambda>e. efrom e \<noteq> i \<and> eto e \<noteq> i) (edges s)"
  by (simp_all add: nodes_remove_def)

lemma getIds_record_update [simp]:
  "getIds (s\<lparr>edges := es\<rparr>) = getIds s"
  "getIds (s\<lparr>isReset := b\<rparr>) = getIds s"
  "getIds (s\<lparr>selectedNode := sel\<rparr>) = getIds s"
  "getIds (s\<lparr>traceedges := tes\<rparr>) = getIds s"
  "getIds (s\<lparr>tracenodes := tns\<rparr>) = getIds s"
  "getIds (s\<lparr>startpages := sp\<rparr>) = getIds s"
  "getIds (s\<lparr>lastClickedNode := lc\<rparr>) = getIds s"
  by (simp_all add: getIds_def)

lemma nodes_get_record_update [simp]:
  "nodes_get (s\<lparr>edges := es\<rparr>) i = nodes_get s i"
  "nodes_get (s\<lparr>isReset := b\<rparr>) i = nodes_get s i"
  "nodes_get (s\<lparr>selectedNode := sel\<rparr>) i = nodes_get s i"
  "nodes_get (s\<lparr>traceedges := tes\<rparr>) i = nodes_get s i"
  "nodes_get (s\<lparr>tracenodes := tns\<rparr>) i = nodes_get s i"
  "nodes_get (s\<lparr>startpages := sp\<rparr>) i = nodes_get s i"
  "nodes_get (s\<lparr>lastClickedNode := lc\<rparr>) i = nodes_get s i"
  by (simp_all add: nodes_get_def)

lemma getIds_nodes_patch:
  "(\<And>i f r. (i, f) \<in> set ps \<Longrightarrow> nid r = i \<Longrightarrow> nid (f r) = i) \<Longrightarrow>
   getIds (nodes_patch ps s) = getIds s"
  by (simp add: getIds_def nodes_patch_def apply_patches_keys)

lemma getIds_edges_patch [simp]: "getIds (edges_patch ps s) = getIds s"
  by (simp add: getIds_def)

lemma colorNodes_fields [simp]:
  "edges (colorNodes env ns c s) = edges s"
  "isReset (colorNodes env ns c s) = isReset s"
  "selectedNode (colorNodes env ns c s) = selectedNode s"
  "traceedges (colorNodes env ns c s) = traceedges s"
  "tracenodes (colorNodes env ns c s) = tracenodes s"
  "startpages (colorNodes env ns c s) = startpages s"
  "lastClickedNode (colorNodes env ns c s) = lastClickedNode s"
  by (simp_all add: colorNodes_def)

lemma getIds_colorNodes [simp]: "getIds (colorNodes env ns c s) = getIds s"
  unfolding colorNodes_def by (rule getIds_nodes_patch) auto

lemma updateNodeValue_fields [simp]:
  "edges (updateNodeValue i s) = edges s"
  "isReset (updateNodeValue i s) = isReset s"
  "selectedNode (updateNodeValue i s) = selectedNode s"
  "traceedges (updateNodeValue i s) = traceedges s"
  "tracenodes (updateNodeValue i s) = tracenodes s"
  "startpages (updateNodeValue i s) = startpages s"
  "lastClickedNode (updateNodeValue i s) = lastClickedNode s"
  by (simp_all add: updateNodeValue_def)

lemma getIds_updateNodeValue [simp]: "getIds (updateNodeValue i s) = getIds s"
  unfolding updateNodeValue_def by (rule getIds_nodes_patch) auto

lemma fold_updateNodeValue_fields [simp]:
  "edges (fold updateNodeValue is s) = edges s"
  "isReset (fold updateNodeValue is s) = isReset s"
  "selectedNode (fold updateNodeValue is s) = selectedNode s"
  "traceedges (fold updateNodeValue is s) = traceedges s"
  "tracenodes (fold updateNodeValue is s) = tracenodes s"
  "startpages (fold updateNodeValue is s) = startpages s"
  "getIds (fold updateNodeValue is s) = getIds s"
  by (induction "is" arbitrary: s; simp)+


lemma patch_for_simps [simp]:
  "patch_for k [] r = r"
  "patch_for k ((i, f) # ps) r = patch_for k ps (if i = k then f r else r)"
  "patch_for k (ps @ qs) r = patch_for k qs (patch_for k ps r)"
  by (simp_all add: patch_for_def)

lemma patch_for_absent: "k \<notin> fst ` set ps \<Longrightarrow> patch_for k ps r = r"
  by (induction ps arbitrary: r) auto

lemma apply_patches_pointwise:
  "(\<And>i f r. (i, f) \<in> set ps \<Longrightarrow> key r = i \<Longrightarrow> key (f r) = i) \<Longrightarrow>
   apply_patches key ps stored = map (\<lambda>r. patch_for (key r) ps r) stored"
proof (induction ps arbitrary: stored)
  case Nil
  then show ?case by simp
next
  case (Cons p ps)
  obtain i f where p: "p = (i, f)" by (cases p)
  let ?g = "\<lambda>r. if key r = i then f r else r"
  have kp: "key (?g r) = key r" for r
    using Cons.prems [of i f r] by (simp add: p)
  have "apply_patches key ps (map ?g stored) = map (\<lambda>r. patch_for (key r) ps r) (map ?g stored)"
    by (rule Cons.IH) (use Cons.prems in auto)
  also have "\<dots> = map (\<lambda>r. patch_for (key r) ps (?g r)) stored"
    by (simp add: kp del: if_split cong: if_cong)
  also have "\<dots> = map (\<lambda>r. patch_for (key r) (p # ps) r) stored"
    by (rule map_cong) (auto simp: p)
  finally show ?case by (simp add: p)
qed

lemma patch_for_own:
  assumes "distinct (map key xs)" and "x0 \<in> set xs"
  shows "patch_for (key x0) (map (\<lambda>x. (key x, F x)) (filter Q xs)) r
           = (if Q x0 then F x0 r else r)"
  using assms
proof (induction xs arbitrary: r)
  case Nil
  then show ?case by simp
next
  case (Cons x xs)
  show ?case
  proof (cases "x = x0")
    case True
    with Cons.prems have "key x0 \<notin> key ` set xs" by auto
    then have "key x0 \<notin> fst ` set (map (\<lambda>x. (key x, F x)) (filter Q xs))"
      by (auto simp: image_iff)
    from patch_for_absent [OF this] True show ?thesis by simp
  next
    case False
    with Cons.prems have in_xs: "x0 \<in> set xs" and "key x \<noteq> key x0" by auto
    with Cons.IH [OF _ in_xs] Cons.prems(1) show ?thesis by simp
  qed
qed

lemma patch_for_other:
  assumes "\<And>x. x \<in> set xs \<Longrightarrow> key x \<noteq> k"
  shows "patch_for k (map (\<lambda>x. (key x, F x)) (filter Q xs)) r = r"
  by (rule patch_for_absent) (use assms in \<open>auto simp: image_iff\<close>)


lemma patch_for_key:
  "(\<And>i f r. (i, f) \<in> set ps \<Longrightarrow> key r = i \<Longrightarrow> key (f r) = i) \<Longrightarrow>
   key (patch_for (key r) ps r) = key r"
proof (induction ps arbitrary: r)
  case Nil
  then show ?case by simp
next
  case (Cons p ps)
  obtain i f where p: "p = (i, f)" by (cases p)
  have kp: "key (if i = key r then f r else r) = key r"
    using Cons.prems [of i f r] by (simp add: p)
  have "key (patch_for (key (if i = key r then f r else r)) ps (if i = key r then f r else r))
          = key (if i = key r then f r else r)"
    by (rule Cons.IH) (use Cons.prems in auto)
  with kp show ?case by (simp add: p)
qed

lemma find_append_last:
  "(\<And>y. y \<in> set xs \<Longrightarrow> \<not> P y) \<Longrightarrow> P x \<Longrightarrow> find P (xs @ [x]) = Some x"
  by (induction xs) auto

lemma find_map_key:
  "(\<And>r. key (h r) = key r) \<Longrightarrow>
   find (\<lambda>r. key r = k) (map h xs) = map_option h (find (\<lambda>r. key r = k) xs)"
  by (induction xs) auto




lemma find_level_apply_patches:
  assumes "\<And>i f r. (i, f) \<in> set ps \<Longrightarrow> nid (f r) = nid r \<and> level (f r) = level r"
  shows "map_option level (find (\<lambda>r. nid r = k) (apply_patches nid ps stored))
           = map_option level (find (\<lambda>r. nid r = k) stored)"
  using assms
proof (induction ps arbitrary: stored)
  case Nil
  then show ?case by simp
next
  case (Cons p ps)
  obtain i f where p: "p = (i, f)" by (cases p)
  let ?g = "\<lambda>r. if nid r = i then f r else r"
  have g: "nid (?g r) = nid r \<and> level (?g r) = level r" for r
    using Cons.prems [of i f r] by (simp add: p)
  have "find (\<lambda>r. nid r = k) (map ?g stored) = map_option ?g (find (\<lambda>r. nid r = k) stored)"
    by (rule find_map_key) (simp add: g)
  then have "map_option level (find (\<lambda>r. nid r = k) (map ?g stored))
      = map_option level (find (\<lambda>r. nid r = k) stored)"
    using g by (cases "find (\<lambda>r. nid r = k) stored") auto
  moreover have "map_option level (find (\<lambda>r. nid r = k) (apply_patches nid ps (map ?g stored)))
      = map_option level (find (\<lambda>r. nid r = k) (map ?g stored))"
    by (rule Cons.IH) (use Cons.prems in auto)
  ultimately show ?case by (simp add: p)
qed

lemma level_nodes_patch:
  assumes "\<And>i f r. (i, f) \<in> set ps \<Longrightarrow> nid (f r) = nid r \<and> level (f r) = level r"
  shows "map_option level (nodes_get (nodes_patch ps s) k) = map_option level (nodes_get s k)"
proof -
  have "map_option level (find (\<lambda>r. nid r = k) (apply_patches nid ps (nodes s)))
           = map_option level (find (\<lambda>r. nid r = k) (nodes s))"
    by (rule find_level_apply_patches) (rule assms)
  then show ?thesis by (simp add: nodes_get_def nodes_patch_def)
qed

lemma level_colorNodes [simp]:
  "map_option level (nodes_get (colorNodes env ns c s) k) = map_option level (nodes_get s k)"
  unfolding colorNodes_def by (rule level_nodes_patch) auto



section \<open>Properties of rename and merge\<close>

lemma repointEdges_fields [simp]:
  "nodes (repointEdges oldId newId s) = nodes s"
  "isReset (repointEdges oldId newId s) = isReset s"
  "selectedNode (repointEdges oldId newId s) = selectedNode s"
  "traceedges (repointEdges oldId newId s) = traceedges s"
  "tracenodes (repointEdges oldId newId s) = tracenodes s"
  "startpages (repointEdges oldId newId s) = startpages s"
  "lastClickedNode (repointEdges oldId newId s) = lastClickedNode s"
  by (simp_all add: repointEdges_def edges_patch_def)

lemma repointEdges_edges:
  assumes "distinct (map eid (edges s))"
  shows "edges (repointEdges oldId newId s) =
           map (\<lambda>e. if eto e = oldId then e\<lparr>eto := newId\<rparr>
                     else if efrom e = oldId then e\<lparr>efrom := newId\<rparr> else e) (edges s)"
proof -
  let ?P = "map (\<lambda>e. (eid e, \<lambda>d. e\<lparr>efrom := newId\<rparr>)) (filter (\<lambda>e. efrom e = oldId) (edges s))"
  let ?Q = "map (\<lambda>e. (eid e, \<lambda>d. e\<lparr>eto := newId\<rparr>)) (filter (\<lambda>e. eto e = oldId) (edges s))"
  have "apply_patches eid (?P @ ?Q) (edges s) = map (\<lambda>r. patch_for (eid r) (?P @ ?Q) r) (edges s)"
    by (rule apply_patches_pointwise) auto
  also have "\<dots> = map (\<lambda>e. if eto e = oldId then e\<lparr>eto := newId\<rparr>
                     else if efrom e = oldId then e\<lparr>efrom := newId\<rparr> else e) (edges s)"
  proof (rule map_cong [OF refl])
    fix e assume e: "e \<in> set (edges s)"
    have 1: "patch_for (eid e) ?P r = (if efrom e = oldId then e\<lparr>efrom := newId\<rparr> else r)" for r
      using patch_for_own [OF assms e, of "\<lambda>e d. e\<lparr>efrom := newId\<rparr>" "\<lambda>e. efrom e = oldId" r] by simp
    have 2: "patch_for (eid e) ?Q r = (if eto e = oldId then e\<lparr>eto := newId\<rparr> else r)" for r
      using patch_for_own [OF assms e, of "\<lambda>e d. e\<lparr>eto := newId\<rparr>" "\<lambda>e. eto e = oldId" r] by simp
    show "patch_for (eid e) (?P @ ?Q) e = (if eto e = oldId then e\<lparr>eto := newId\<rparr>
                     else if efrom e = oldId then e\<lparr>efrom := newId\<rparr> else e)"
      by (simp add: 1 2)
  qed
  finally show ?thesis by (simp add: repointEdges_def edges_patch_def)
qed


lemma repointParents_fields [simp]:
  "edges (repointParents oldId newId s) = edges s"
  "isReset (repointParents oldId newId s) = isReset s"
  "selectedNode (repointParents oldId newId s) = selectedNode s"
  "traceedges (repointParents oldId newId s) = traceedges s"
  "tracenodes (repointParents oldId newId s) = tracenodes s"
  "startpages (repointParents oldId newId s) = startpages s"
  "lastClickedNode (repointParents oldId newId s) = lastClickedNode s"
  by (simp_all add: repointParents_def)

lemma getIds_repointParents [simp]: "getIds (repointParents oldId newId s) = getIds s"
  unfolding repointParents_def by (rule getIds_nodes_patch) auto

lemma moveHighlight_fields [simp]:
  "nodes (moveHighlight oldId newId s) = nodes s"
  "edges (moveHighlight oldId newId s) = edges s"
  "isReset (moveHighlight oldId newId s) = isReset s"
  "getIds (moveHighlight oldId newId s) = getIds s"
  by (simp_all add: moveHighlight_def)

lemma renameNode_merge:
  assumes dist: "distinct (map eid (edges s))"
    and ne: "getNormalizedId env newName \<noteq> oldId"
    and pre: "getNormalizedId env newName \<in> set (getIds s)"
  shows "\<exists>s'. renameNode env s oldId newName = Done (getNormalizedId env newName) s' \<and>
           oldId \<notin> set (getIds s') \<and>
           nodes (repointEdges oldId (getNormalizedId env newName) s) = nodes s \<and>
           edges s' =
             filter (\<lambda>e. efrom e \<noteq> oldId \<and> eto e \<noteq> oldId)
               (map (\<lambda>e. if eto e = oldId then e\<lparr>eto := getNormalizedId env newName\<rparr>
                          else if efrom e = oldId then e\<lparr>efrom := getNormalizedId env newName\<rparr>
                          else e) (edges s))"
proof -
  define newId where "newId = getNormalizedId env newName"
  define s1 where "s1 = repointEdges oldId newId s"
  define s2 where "s2 = nodes_patch [(newId, \<lambda>n. n\<lparr>label := newName\<rparr>)] (nodes_remove oldId s1)"
  have "nodes_get s1 newId \<noteq> None"
    using pre by (simp add: s1_def nodes_get_None getIds_def newId_def)
  then have m: "mergeOrReidentify env (nodes_get s oldId) oldId newId newName s1 = Done () s2"
    by (simp add: mergeOrReidentify_def s2_def)
  have r: "renameNode env s oldId newName
      = Done newId (moveHighlight oldId newId (repointParents oldId newId s2))"
    using ne m by (simp add: renameNode_def Let_def newId_def [symmetric] s1_def [symmetric])
  have "getIds s2 = getIds (nodes_remove oldId s1)"
    unfolding s2_def by (rule getIds_nodes_patch) auto
  then have "getIds (moveHighlight oldId newId (repointParents oldId newId s2))
      = getIds (nodes_remove oldId s1)" by simp
  then have gone: "oldId \<notin> set (getIds (moveHighlight oldId newId (repointParents oldId newId s2)))"
    by (auto simp: getIds_def)
  have "edges s2 = filter (\<lambda>e. efrom e \<noteq> oldId \<and> eto e \<noteq> oldId) (edges s1)"
    by (simp add: s2_def)
  with repointEdges_edges [OF dist, of oldId newId]
  have e: "edges (moveHighlight oldId newId (repointParents oldId newId s2)) =
             filter (\<lambda>e. efrom e \<noteq> oldId \<and> eto e \<noteq> oldId)
               (map (\<lambda>e. if eto e = oldId then e\<lparr>eto := newId\<rparr>
                          else if efrom e = oldId then e\<lparr>efrom := newId\<rparr>
                          else e) (edges s))"
    by (simp add: s1_def)
  from r gone e show ?thesis
    unfolding newId_def [symmetric] by simp
qed

text \<open>What the merge does to one edge.\<close>

lemma renameNode_merge_edge:
  assumes dist: "distinct (map eid (edges s))"
    and ne: "getNormalizedId env newName \<noteq> oldId"
    and pre: "getNormalizedId env newName \<in> set (getIds s)"
    and e: "e \<in> set (edges s)"
  shows "(efrom e \<noteq> oldId \<and> eto e = oldId \<longrightarrow>
            e\<lparr>eto := getNormalizedId env newName\<rparr> \<in> set (edges (final (renameNode env s oldId newName)))) \<and>
         (efrom e = oldId \<and> eto e \<noteq> oldId \<longrightarrow>
            e\<lparr>efrom := getNormalizedId env newName\<rparr> \<in> set (edges (final (renameNode env s oldId newName)))) \<and>
         (efrom e = oldId \<and> eto e = oldId \<longrightarrow>
            eid e \<notin> set (map eid (edges (final (renameNode env s oldId newName)))))"
proof -
  from renameNode_merge [OF dist ne pre] obtain s' where
    r: "renameNode env s oldId newName = Done (getNormalizedId env newName) s'"
    and es: "edges s' =
             filter (\<lambda>e. efrom e \<noteq> oldId \<and> eto e \<noteq> oldId)
               (map (\<lambda>e. if eto e = oldId then e\<lparr>eto := getNormalizedId env newName\<rparr>
                          else if efrom e = oldId then e\<lparr>efrom := getNormalizedId env newName\<rparr>
                          else e) (edges s))"
    by blast
  let ?rp = "\<lambda>e. if eto e = oldId then e\<lparr>eto := getNormalizedId env newName\<rparr>
                          else if efrom e = oldId then e\<lparr>efrom := getNormalizedId env newName\<rparr>
                          else e"
  have a: "e\<lparr>eto := getNormalizedId env newName\<rparr> \<in> set (edges s')"
    if "efrom e \<noteq> oldId" "eto e = oldId"
  proof -
    have "?rp e \<in> set (map ?rp (edges s))" unfolding set_map using e by (rule imageI)
    with that ne show ?thesis by (simp add: es)
  qed
  have b: "e\<lparr>efrom := getNormalizedId env newName\<rparr> \<in> set (edges s')"
    if "efrom e = oldId" "eto e \<noteq> oldId"
  proof -
    have "?rp e \<in> set (map ?rp (edges s))" unfolding set_map using e by (rule imageI)
    with that ne show ?thesis by (simp add: es)
  qed
  have c: "eid e \<notin> set (map eid (edges s'))" if "efrom e = oldId" "eto e = oldId"
  proof
    assume "eid e \<in> set (map eid (edges s'))"
    then obtain e' where e': "e' \<in> set (edges s)" and k: "eid (?rp e') = eid e"
      and keep: "efrom (?rp e') \<noteq> oldId \<and> eto (?rp e') \<noteq> oldId"
      by (auto simp: es)
    have "eid e' = eid e" using k by (simp split: if_splits)
    with dist e e' have "e' = e" by (auto simp: distinct_map inj_on_def)
    with keep that ne show False by simp
  qed
  from a b c show ?thesis by (simp add: r)
qed

text \<open>
  Claim C1. For the edges that join the renamed node to other nodes the merge does what
  the claim says (\<open>renameNode_merge\<close>, \<open>renameNode_merge_edge\<close>): the edge step runs
  first and leaves the node records alone, every such edge is repointed to the new id, and
  the old record is gone. An edge from the old node to itself is in both lists of line 21
  to 30; the second copy still carries the old \<^verbatim>\<open>from\<close> and is applied last. In
  \<open>family_selflinked\<close> the edge 4 from \<open>old\<close> to \<open>old\<close> is left as an edge from
  \<open>old\<close> to \<open>new\<close> by the edge step, so it still names the node that is about to be
  removed, and no edge from \<open>new\<close> to \<open>new\<close> exists after the merge.
\<close>

theorem renameNode_selfloop_not_repointed:
  "map (\<lambda>e. (eid e, efrom e, eto e)) (edges family_selflinked)
     = [(1, ''r'', ''old''), (2, ''r'', ''new''), (3, ''old'', ''kid''), (4, ''old'', ''old'')] \<and>
   getNormalizedId demo_env ''n_ew'' = ''new'' \<and>
   map (\<lambda>e. (eid e, efrom e, eto e)) (edges (repointEdges ''old'' ''new'' family_selflinked))
     = [(1, ''r'', ''new''), (2, ''r'', ''new''), (3, ''new'', ''kid''), (4, ''old'', ''new'')] \<and>
   completed (renameNode demo_env family_selflinked ''old'' ''n_ew'') \<and>
   map (\<lambda>e. (eid e, efrom e, eto e)) (edges (final (renameNode demo_env family_selflinked ''old'' ''n_ew'')))
     = [(1, ''r'', ''new''), (2, ''r'', ''new''), (3, ''new'', ''kid'')]"
  by code_simp

text \<open>
  Claim C8. In a pure rename (the new id is not the old one and no node has it), the
  record inserted under the new id is the old record with only the id and the label
  replaced, the label being the wrapped new name. The rename completes; in its final
  state the old id is absent and the record under the new id still has every carried
  attribute: level, position, weight and colours as they were, and the parent as it was.
  The one change made after the insertion is the parent update of lines 43 to 47, which
  applies to the renamed record only if the node was recorded as its own parent.
\<close>

theorem renameNode_pure_rename_carries_attributes:
  assumes old: "nodes_get s oldId = Some old"
    and ne: "getNormalizedId env newName \<noteq> oldId"
    and fresh: "getNormalizedId env newName \<notin> set (getIds s)"
  shows "\<exists>s2 s'.
      mergeOrReidentify env (Some old) oldId (getNormalizedId env newName) newName
          (repointEdges oldId (getNormalizedId env newName) s) = Done () s2 \<and>
      nodes_get s2 (getNormalizedId env newName)
        = Some (old\<lparr>nid := getNormalizedId env newName,
                    label := wordwrap env newName (if level old = 0 then 20 else 15)\<rparr>) \<and>
      renameNode env s oldId newName = Done (getNormalizedId env newName) s' \<and>
      nodes_get s' (getNormalizedId env newName)
        = Some (old\<lparr>nid := getNormalizedId env newName,
                    label := wordwrap env newName (if level old = 0 then 20 else 15),
                    parent := (if parent old = Some oldId
                               then Some (getNormalizedId env newName) else parent old)\<rparr>) \<and>
      nodes_get s' oldId = None"
proof -
  define newId where "newId = getNormalizedId env newName"
  define old' where "old' = old\<lparr>nid := newId, label := wordwrap env newName (if level old = 0 then 20 else 15)\<rparr>"
  define s1 where "s1 = repointEdges oldId newId s"
  define kept where "kept = filter (\<lambda>n. nid n \<noteq> oldId) (nodes s)"
  define s2 where "s2 = nodes_add [old'] (nodes_remove oldId s1)"
  define P :: "(string \<times> (node \<Rightarrow> node)) list" where "P = map (\<lambda>n. (nid n, \<lambda>d. n\<lparr>parent := Some newId\<rparr>))
          (filter (\<lambda>n. parent n = Some oldId) (nodes s2))"
  have kept_ne: "nid n \<noteq> newId" if "n \<in> set kept" for n
  proof -
    from that have "n \<in> set (nodes s)" by (simp add: kept_def)
    then have "nid n \<in> set (getIds s)" by (simp add: getIds_def)
    with fresh show ?thesis by (auto simp: newId_def)
  qed
  have n1: "nodes_get s1 newId = None"
    using fresh by (simp add: s1_def nodes_get_None getIds_def newId_def)
  have nodes2: "nodes s2 = kept @ [old']"
    using kept_ne by (auto simp: s2_def nodes_add_def s1_def kept_def old'_def)
  have m: "mergeOrReidentify env (Some old) oldId newId newName s1 = Done () s2"
    using n1 by (simp add: mergeOrReidentify_def s2_def old'_def)
  have g2: "nodes_get s2 newId = Some old'"
    unfolding nodes_get_def nodes2
    by (rule find_append_last) (use kept_ne in \<open>auto simp: old'_def\<close>)
  have kp: "nid (f r) = i" if "(i, f) \<in> set P" and "nid r = i" for i f and r :: node
    using that by (auto simp: P_def)
  have nodes3: "nodes (repointParents oldId newId s2) = map (\<lambda>r. patch_for (nid r) P r) (nodes s2)"
  proof -
    have "apply_patches nid P (nodes s2) = map (\<lambda>r. patch_for (nid r) P r) (nodes s2)"
      by (rule apply_patches_pointwise) (rule kp)
    then show ?thesis
      by (simp add: repointParents_def nodes_patch_def P_def)
  qed
  have pk: "nid (patch_for (nid r) P r) = nid r" for r
    by (rule patch_for_key) (rule kp)
  have own: "patch_for newId P old'
      = (if parent old = Some oldId then old'\<lparr>parent := Some newId\<rparr> else old')"
  proof -
    have "patch_for newId (map (\<lambda>n. (nid n, \<lambda>d. n\<lparr>parent := Some newId\<rparr>))
           (filter (\<lambda>n. parent n = Some oldId) kept)) r = r" for r
      by (rule patch_for_other) (use kept_ne in auto)
    then show ?thesis
      by (simp add: P_def nodes2) (simp add: old'_def)
  qed
  have g3: "nodes_get (repointParents oldId newId s2) newId
      = Some (if parent old = Some oldId then old'\<lparr>parent := Some newId\<rparr> else old')"
  proof -
    have "find (\<lambda>r. nid r = newId) (map (\<lambda>r. patch_for (nid r) P r) (nodes s2))
        = map_option (\<lambda>r. patch_for (nid r) P r) (find (\<lambda>r. nid r = newId) (nodes s2))"
      by (rule find_map_key) (rule pk)
    with g2 own show ?thesis
      by (simp add: nodes_get_def nodes3 old'_def)
  qed
  have ids3: "getIds (repointParents oldId newId s2) = map nid kept @ [newId]"
  proof -
    have "map nid (map (\<lambda>r. patch_for (nid r) P r) (nodes s2)) = map nid (nodes s2)"
      by (simp add: pk comp_def)
    then show ?thesis
      by (simp add: getIds_def nodes3 nodes2 old'_def)
  qed
  have gone: "nodes_get (repointParents oldId newId s2) oldId = None"
    unfolding nodes_get_None ids3 using ne by (auto simp: kept_def newId_def)
  have r: "renameNode env s oldId newName
      = Done newId (moveHighlight oldId newId (repointParents oldId newId s2))"
    using ne m old by (simp add: renameNode_def Let_def newId_def [symmetric] s1_def [symmetric])
  have mh: "nodes_get (moveHighlight oldId newId t) i = nodes_get t i" for t i
    by (simp add: moveHighlight_def)
  have final_rec: "(if parent old = Some oldId then old'\<lparr>parent := Some newId\<rparr> else old')
      = old\<lparr>nid := newId, label := wordwrap env newName (if level old = 0 then 20 else 15),
            parent := (if parent old = Some oldId then Some newId else parent old)\<rparr>"
    by (simp add: old'_def)
  show ?thesis
    unfolding newId_def [symmetric]
    using m g2 r g3 gone mh final_rec
    by (intro exI [of _ s2] exI [of _ "moveHighlight oldId newId (repointParents oldId newId s2)"])
       (simp add: s1_def old'_def)
qed

theorem renameNode_pure_rename_carries_attributes_witness:
  "nodes_get family ''old'' = Some (mk_node ''old'' 1 (Some ''r'')) \<and>
   getNormalizedId demo_env ''fresh'' \<noteq> ''old'' \<and>
   getNormalizedId demo_env ''fresh'' \<notin> set (getIds family) \<and>
   (\<exists>s2 s'.
      mergeOrReidentify demo_env (Some (mk_node ''old'' 1 (Some ''r''))) ''old''
          (getNormalizedId demo_env ''fresh'') ''fresh''
          (repointEdges ''old'' (getNormalizedId demo_env ''fresh'') family) = Done () s2 \<and>
      nodes_get s2 (getNormalizedId demo_env ''fresh'')
        = Some ((mk_node ''old'' 1 (Some ''r''))\<lparr>nid := getNormalizedId demo_env ''fresh'',
                    label := wordwrap demo_env ''fresh''
                      (if level (mk_node ''old'' 1 (Some ''r'')) = 0 then 20 else 15)\<rparr>) \<and>
      renameNode demo_env family ''old'' ''fresh'' = Done (getNormalizedId demo_env ''fresh'') s' \<and>
      nodes_get s' (getNormalizedId demo_env ''fresh'')
        = Some ((mk_node ''old'' 1 (Some ''r''))\<lparr>nid := getNormalizedId demo_env ''fresh'',
                    label := wordwrap demo_env ''fresh''
                      (if level (mk_node ''old'' 1 (Some ''r'')) = 0 then 20 else 15),
                    parent := (if parent (mk_node ''old'' 1 (Some ''r'')) = Some ''old''
                               then Some (getNormalizedId demo_env ''fresh'')
                               else parent (mk_node ''old'' 1 (Some ''r'')))\<rparr>) \<and>
      nodes_get s' ''old'' = None)"
proof -
  have h1: "nodes_get family ''old'' = Some (mk_node ''old'' 1 (Some ''r''))" by code_simp
  have h2: "getNormalizedId demo_env ''fresh'' \<noteq> ''old''" by code_simp
  have h3: "getNormalizedId demo_env ''fresh'' \<notin> set (getIds family)" by code_simp
  from h1 h2 h3 renameNode_pure_rename_carries_attributes [OF h1 h2 h3]
  show ?thesis by blast
qed

section \<open>Properties of the traceback\<close>

declare traceLoop.simps [simp del]
declare edgeLoop.simps [simp del]

lemma edgeLoop_eq:
  "edgeLoop s tb i path =
     path @ map (\<lambda>j. getEdgeConnecting s (tb ! j) (tb ! Suc j)) [i..<length tb - 1]"
proof (induction s tb i path rule: edgeLoop.induct)
  case (1 s tbnodes i path)
  show ?case
  proof (cases "Suc i < length tbnodes")
    case True
    then have "[i..<length tbnodes - 1] = i # [Suc i..<length tbnodes - 1]"
      by (simp add: upt_rec)
    with True 1 show ?thesis
      by (subst edgeLoop.simps) simp
  next
    case False
    then show ?thesis by (subst edgeLoop.simps) simp
  qed
qed

text \<open>
  Claim C7, as amended. The edge derivation never fails and returns one entry for every
  consecutive pair of the reversed node sequence, so its length is always the number of
  nodes minus one (zero for an empty sequence); the entry of a pair is the result of the
  edge lookup, which for a pair that no edge connects is the absent value, kept in the
  sequence as a placeholder.
\<close>

theorem getTraceBackEdges_one_entry_per_pair:
  "fst (getTraceBackEdges s tbnodes) = rev tbnodes \<and>
   length (snd (getTraceBackEdges s tbnodes)) = length tbnodes - 1 \<and>
   (\<forall>i. Suc i < length tbnodes \<longrightarrow>
      snd (getTraceBackEdges s tbnodes) ! i
        = getEdgeConnecting s (rev tbnodes ! i) (rev tbnodes ! Suc i))"
  by (auto simp: getTraceBackEdges_def edgeLoop_eq)

theorem getTraceBackEdges_one_entry_per_pair_witness:
  "Suc 0 < length [''new'', ''old'', ''r''] \<and>
   snd (getTraceBackEdges family [''new'', ''old'', ''r'']) ! 0
     = getEdgeConnecting family (rev [''new'', ''old'', ''r''] ! 0) (rev [''new'', ''old'', ''r''] ! Suc 0)"
proof -
  have h: "Suc 0 < length [''new'', ''old'', ''r'']" by simp
  from getTraceBackEdges_one_entry_per_pair [of family "[''new'', ''old'', ''r'']"] h
  have c: "snd (getTraceBackEdges family [''new'', ''old'', ''r'']) ! 0
     = getEdgeConnecting family (rev [''new'', ''old'', ''r''] ! 0) (rev [''new'', ''old'', ''r''] ! Suc 0)"
    by blast
  from h c show ?thesis by (rule conjI)
qed

text \<open>
  Claim C7, as stated, fails. In \<open>unlinked\<close> the trace of \<open>old\<close> is \<open>old\<close>, \<open>r\<close>,
  and no edge leads from \<open>r\<close> to \<open>old\<close>; the edge sequence derived from the two
  nodes has one entry, the placeholder, and is not shorter than the number of nodes
  minus one.
\<close>

theorem getTraceBackEdges_not_shorter:
  "getTraceBackNodes unlinked ''old'' = Inr [''old'', ''r''] \<and>
   getEdgeConnecting unlinked ''r'' ''old'' = None \<and>
   snd (getTraceBackEdges unlinked [''old'', ''r'']) = [None] \<and>
   \<not> length (snd (getTraceBackEdges unlinked [''old'', ''r''])) < length [''old'', ''r''] - 1"
  by code_simp

lemma parentOf_stored:
  assumes "parentsStored s" and "c \<in> set (getIds s)"
  shows "\<exists>p. parentOf s (Some c) = Inr p \<and> (case p of None \<Rightarrow> True | Some q \<Rightarrow> q \<in> set (getIds s))"
proof -
  from assms(2) obtain n where n: "nodes_get s c = Some n"
    using nodes_get_None [of s c] by (cases "nodes_get s c") auto
  from nodes_get_Some_nid [OF n] assms(1) have "case parent n of None \<Rightarrow> True | Some q \<Rightarrow> q \<in> set (getIds s)"
    by (auto simp: parentsStored_def list_all_iff)
  with n show ?thesis by (simp add: parentOf_def)
qed

lemma traceLoop_stored:
  assumes "parentsStored s"
    and "case cur of None \<Rightarrow> True | Some c \<Rightarrow> c \<in> set (getIds s)"
    and "set path \<subseteq> set (getIds s)"
  shows "\<exists>p. traceLoop s cur it path = Inr p \<and> set p \<subseteq> set (getIds s) \<and>
             (p = [] \<or> last p \<in> set (startpages s))"
  using assms(2,3)
proof (induction "101 - it" arbitrary: it cur path)
  case 0
  then have big: "100 < it" by simp
  show ?case
  proof (cases cur)
    case None
    with big show ?thesis by (subst traceLoop.simps) (simp add: parentOf_def)
  next
    case (Some c)
    with "0.prems" parentOf_stored [OF assms(1), of c] obtain p where "parentOf s (Some c) = Inr p"
      by auto
    with big Some show ?thesis by (subst traceLoop.simps) simp
  qed
next
  case (Suc k)
  then have small: "\<not> 100 < it" and k: "k = 101 - Suc it" by simp_all
  show ?case
  proof (cases cur)
    case None
    have "\<exists>p. traceLoop s None (Suc it) path = Inr p \<and> set p \<subseteq> set (getIds s) \<and>
             (p = [] \<or> last p \<in> set (startpages s))"
      by (rule Suc.hyps(1) [OF k]) (use Suc.prems in simp_all)
    with None small show ?thesis
      by (subst traceLoop.simps) (simp add: parentOf_def isStart_def pushed_def)
  next
    case (Some c)
    with Suc.prems have c: "c \<in> set (getIds s)" by simp
    from parentOf_stored [OF assms(1) c] obtain p where
      p: "parentOf s (Some c) = Inr p"
      and ps: "case p of None \<Rightarrow> True | Some q \<Rightarrow> q \<in> set (getIds s)" by blast
    have path': "set (pushed path (Some c)) \<subseteq> set (getIds s)"
      using Suc.prems(2) c by (simp add: pushed_def)
    show ?thesis
    proof (cases "isStart s (Some c)")
      case True
      with p small Some path' show ?thesis
        by (subst traceLoop.simps) (simp add: isStart_def pushed_def)
    next
      case False
      have "\<exists>r. traceLoop s p (Suc it) (pushed path (Some c)) = Inr r \<and> set r \<subseteq> set (getIds s) \<and>
             (r = [] \<or> last r \<in> set (startpages s))"
        by (rule Suc.hyps(1) [OF k ps path'])
      with p small Some False show ?thesis
        by (subst traceLoop.simps) simp
    qed
  qed
qed

lemma getTraceBackNodes_stored:
  assumes "parentsStored s" and "node \<in> set (getIds s)"
  shows "\<exists>p. getTraceBackNodes s node = Inr p \<and> set p \<subseteq> set (getIds s) \<and>
             (p = [] \<or> last p \<in> set (startpages s))"
  unfolding getTraceBackNodes_def
  by (rule traceLoop_stored [OF assms(1)]) (use assms(2) in simp_all)

text \<open>
  The failsafe: when the parent chain stays in the store and no stored node is a root (the
  chain then runs into a cycle, or ends at a node without parent that is no root), the
  result is the empty sequence.
\<close>

lemma getTraceBackNodes_no_root:
  assumes "parentsStored s" and "node \<in> set (getIds s)"
    and "set (getIds s) \<inter> set (startpages s) = {}"
  shows "getTraceBackNodes s node = Inr []"
proof -
  from getTraceBackNodes_stored [OF assms(1,2)] obtain p where
    p: "getTraceBackNodes s node = Inr p" and sub: "set p \<subseteq> set (getIds s)"
    and l: "p = [] \<or> last p \<in> set (startpages s)" by blast
  have "p = []"
  proof (rule ccontr)
    assume ne: "p \<noteq> []"
    with l have "last p \<in> set (startpages s)" by simp
    moreover from ne sub have "last p \<in> set (getIds s)" using last_in_set by blast
    ultimately show False using assms(3) by auto
  qed
  with p show ?thesis by simp
qed

text \<open>
  Claim C3. The failsafe returns the empty sequence when the chain stays inside the store
  (\<open>getTraceBackNodes_no_root\<close>, which covers every cycle). It is not reached when
  the chain leaves the store: removing \<open>old\<close> from \<open>family\<close> leaves \<open>kid\<close> with a
  parent id that the store no longer holds; the parent chain of \<open>kid\<close> then never
  reaches the root, and the traceback throws instead of returning the empty sequence.
\<close>

theorem getTraceBackNodes_dangling_parent_throws:
  "completed (removeNodeEvent demo_env family (Some ''old'')) \<and>
   getTraceBackNodes (final (removeNodeEvent demo_env family (Some ''old''))) ''kid''
     = Inl TypeError"
  by code_simp

section \<open>Properties of the highlight state machine\<close>

lemma resetNodes_fields [simp]:
  "edges (resetNodes env s) = edges s"
  "isReset (resetNodes env s) = isReset s"
  "selectedNode (resetNodes env s) = None"
  "traceedges (resetNodes env s) = traceedges s"
  "tracenodes (resetNodes env s) = tracenodes s"
  "startpages (resetNodes env s) = startpages s"
  "lastClickedNode (resetNodes env s) = lastClickedNode s"
  by (simp_all add: resetNodes_def Let_def)

lemma getIds_font_patch [simp]:
  "getIds (nodes_patch (map (\<lambda>n. (nid n, \<lambda>d. d\<lparr>font_color := c n\<rparr>)) ns) t) = getIds t"
  by (rule getIds_nodes_patch) auto

lemma getIds_resetNodes [simp]: "getIds (resetNodes env s) = getIds s"
  by (simp add: resetNodes_def Let_def)

lemma resetProperties_unfold:
  "resetProperties env s =
     (if isReset s then Done () s
      else (case resetEdgeUpdates env (resetNodes env s) (edges s) of
              Inl err \<Rightarrow> Thrown err (resetNodes env s)
            | Inr edgeUpdates \<Rightarrow>
                Done () ((edges_patch edgeUpdates (resetNodes env s))
                           \<lparr>tracenodes := [], traceedges := [], isReset := True\<rparr>)))"
  by (simp add: resetProperties_def Let_def)

lemma resetEdgeUpdates_total:
  "list_all (\<lambda>e. eto e \<in> set (getIds s)) es \<Longrightarrow> \<exists>ups. resetEdgeUpdates env s es = Inr ups"
proof (induction es)
  case Nil
  then show ?case by simp
next
  case (Cons e es)
  then obtain t where "nodes_get s (eto e) = Some t"
    using nodes_get_None [of s "eto e"] by (cases "nodes_get s (eto e)") auto
  with Cons show ?case by auto
qed

lemma resetProperties_Done:
  assumes "resetProperties env s = Done () s'" and "\<not> isReset s"
  shows "tracenodes s' = [] \<and> traceedges s' = [] \<and> selectedNode s' = None \<and> isReset s'
         \<and> getIds s' = getIds s \<and> startpages s' = startpages s \<and> lastClickedNode s' = lastClickedNode s"
  using assms by (auto simp: resetProperties_unfold split: sum.splits)

lemma resetProperties_Thrown:
  assumes "resetProperties env s = Thrown e t"
  shows "\<not> isReset s \<and> getIds t = getIds s \<and> t = resetNodes env s"
  using assms by (auto simp: resetProperties_unfold split: sum.splits if_splits)

lemma resetProperties_completes:
  assumes "list_all (\<lambda>e. eto e \<in> set (getIds s)) (edges s)"
  shows "completed (resetProperties env s)"
proof -
  from assms have "list_all (\<lambda>e. eto e \<in> set (getIds (resetNodes env s))) (edges s)" by simp
  from resetEdgeUpdates_total [OF this, of env] show ?thesis
    by (auto simp: resetProperties_unfold)
qed

lemma resetProperties_cleared:
  assumes "resetProperties env s = Done () s'"
    and "isReset s \<Longrightarrow> selectedNode s = None \<and> tracenodes s = [] \<and> traceedges s = []"
  shows "tracenodes s' = [] \<and> traceedges s' = [] \<and> selectedNode s' = None \<and> isReset s'"
proof (cases "isReset s")
  case True
  with assms(1) have "s' = s" by (simp add: resetProperties_def)
  with True assms(2) show ?thesis by simp
next
  case False
  from resetProperties_Done [OF assms(1) False] show ?thesis by simp
qed




text \<open>
  Claim C5. Reset is idempotent. When the flag already says reset, the call returns the
  state as it is. A reset that completes leaves a state on which a second reset changes
  nothing, with the trace nodes and trace edges empty, the selection cleared and the flag
  set. The reset completes whenever every edge of the store points to a node of the store
  (the colour of an edge is read from its target node). The hypothesis says that a state
  whose flag says reset has nothing selected or traced (\<open>resetMeansClear\<close>), which
  holds initially and is kept by every operation, as the last section shows.
\<close>

theorem resetProperties_idempotent:
  assumes "isReset s \<Longrightarrow> selectedNode s = None \<and> tracenodes s = [] \<and> traceedges s = []"
  shows "(isReset s \<longrightarrow> resetProperties env s = Done () s) \<and>
         (\<forall>s'. resetProperties env s = Done () s' \<longrightarrow>
            resetProperties env s' = Done () s' \<and> tracenodes s' = [] \<and> traceedges s' = [] \<and>
            selectedNode s' = None \<and> isReset s') \<and>
         (list_all (\<lambda>e. eto e \<in> set (getIds s)) (edges s) \<longrightarrow> completed (resetProperties env s))"
proof -
  have a: "isReset s \<longrightarrow> resetProperties env s = Done () s"
    by (simp add: resetProperties_def)
  have b: "resetProperties env s' = Done () s' \<and> tracenodes s' = [] \<and> traceedges s' = [] \<and>
            selectedNode s' = None \<and> isReset s'"
    if d: "resetProperties env s = Done () s'" for s'
  proof -
    from resetProperties_cleared [OF d assms] have c: "tracenodes s' = [] \<and> traceedges s' = [] \<and>
            selectedNode s' = None \<and> isReset s'" by simp
    then have "resetProperties env s' = Done () s'" by (simp add: resetProperties_def)
    with c show ?thesis by simp
  qed
  have c: "list_all (\<lambda>e. eto e \<in> set (getIds s)) (edges s) \<longrightarrow> completed (resetProperties env s)"
    using resetProperties_completes by blast
  from a b c show ?thesis by blast
qed

theorem resetProperties_idempotent_witness:
  "isReset family \<and> resetProperties demo_env family = Done () family \<and>
   \<not> isReset family_traced \<and>
   list_all (\<lambda>e. eto e \<in> set (getIds family_traced)) (edges family_traced) \<and>
   completed (resetProperties demo_env family_traced) \<and>
   (resetProperties demo_env (final (resetProperties demo_env family_traced))
      = Done () (final (resetProperties demo_env family_traced)) \<and>
    tracenodes (final (resetProperties demo_env family_traced)) = [] \<and>
    traceedges (final (resetProperties demo_env family_traced)) = [] \<and>
    selectedNode (final (resetProperties demo_env family_traced)) = None \<and>
    isReset (final (resetProperties demo_env family_traced)))"
proof -
  have rf: "isReset family" by (simp add: family_def mk_state_def)
  have pf: "isReset family \<Longrightarrow>
      selectedNode family = None \<and> tracenodes family = [] \<and> traceedges family = []"
    by (simp add: family_def mk_state_def)
  from resetProperties_idempotent [OF pf, of demo_env] rf
  have c1: "resetProperties demo_env family = Done () family" by blast
  have nT: "\<not> isReset family_traced" by code_simp
  then have pT: "isReset family_traced \<Longrightarrow>
      selectedNode family_traced = None \<and> tracenodes family_traced = [] \<and>
      traceedges family_traced = []" by simp
  have wT: "list_all (\<lambda>e. eto e \<in> set (getIds family_traced)) (edges family_traced)"
    by code_simp
  note thmT = resetProperties_idempotent [OF pT, of demo_env]
  from thmT wT have cT: "completed (resetProperties demo_env family_traced)" by blast
  then have "resetProperties demo_env family_traced
      = Done () (final (resetProperties demo_env family_traced))"
    by (cases "resetProperties demo_env family_traced") simp_all
  with thmT have twice:
    "resetProperties demo_env (final (resetProperties demo_env family_traced))
      = Done () (final (resetProperties demo_env family_traced)) \<and>
    tracenodes (final (resetProperties demo_env family_traced)) = [] \<and>
    traceedges (final (resetProperties demo_env family_traced)) = [] \<and>
    selectedNode (final (resetProperties demo_env family_traced)) = None \<and>
    isReset (final (resetProperties demo_env family_traced))" by blast
  from rf c1 nT wT cT twice show ?thesis by blast
qed

lemma markSelected_fields [simp]:
  "nodes (markSelected s node) = nodes s"
  "edges (markSelected s node) = edges s"
  "isReset (markSelected s node) = False"
  "selectedNode (markSelected s node) = Some node"
  "startpages (markSelected s node) = startpages s"
  by (simp_all add: markSelected_def)

lemma getEdgeConnecting_markSelected [simp]:
  "getEdgeConnecting (markSelected s node) a b = getEdgeConnecting s a b"
  by (simp add: getEdgeConnecting_def)

lemma recordTrace_fields [simp]:
  "nodes (recordTrace s tb) = nodes s"
  "edges (recordTrace s tb) = edges s"
  "isReset (recordTrace s tb) = isReset s"
  "selectedNode (recordTrace s tb) = selectedNode s"
  "startpages (recordTrace s tb) = startpages s"
  "tracenodes (recordTrace s tb) = rev tb"
  "traceedges (recordTrace s tb)
     = map (\<lambda>j. getEdgeConnecting s (rev tb ! j) (rev tb ! Suc j)) [0..<length tb - 1]"
  by (simp_all add: recordTrace_def getTraceBackEdges_def edgeLoop_eq)

lemma dimNodes_fields [simp]:
  "edges (dimNodes s node cn) = edges s"
  "isReset (dimNodes s node cn) = isReset s"
  "selectedNode (dimNodes s node cn) = selectedNode s"
  "traceedges (dimNodes s node cn) = traceedges s"
  "tracenodes (dimNodes s node cn) = tracenodes s"
  "startpages (dimNodes s node cn) = startpages s"
  by (simp_all add: dimNodes_def)

lemma level_dimNodes [simp]:
  "map_option level (nodes_get (dimNodes s node cn) k) = map_option level (nodes_get s k)"
  unfolding dimNodes_def by (rule level_nodes_patch) auto







lemma getIds_dimNodes [simp]: "getIds (dimNodes s node cn) = getIds s"
  unfolding dimNodes_def by (rule getIds_nodes_patch) auto

lemma getIds_markSelected [simp]: "getIds (markSelected s node) = getIds s"
  by (simp add: getIds_def)

lemma getIds_recordTrace [simp]: "getIds (recordTrace s tb) = getIds s"
  by (simp add: getIds_def)





text \<open>
  Claim C10. Tracing the node that is already selected returns at once: the state is
  returned as it was, whatever the reset flag, the trace and the visual attributes are,
  and no reset pass runs.
\<close>

theorem traceBack_selected_noop:
  assumes "selectedNode s = Some node"
  shows "traceBack env s node = Done () s"
  using assms by (simp add: traceBack_def)

theorem traceBack_selected_noop_witness:
  "selectedNode (final (traceBack demo_env family ''kid'')) = Some ''kid'' \<and>
   traceBack demo_env (final (traceBack demo_env family ''kid'')) ''kid''
     = Done () (final (traceBack demo_env family ''kid''))"
proof -
  have h: "selectedNode (final (traceBack demo_env family ''kid'')) = Some ''kid''"
    by code_simp
  from h traceBack_selected_noop [OF h, of demo_env] show ?thesis by (rule conjI)
qed

text \<open>Tracing any other node goes through the reset pass first.\<close>

lemma traceBack_other_resets_first:
  assumes "selectedNode s \<noteq> Some node"
  shows "traceBack env s node
           = (case resetProperties env s of
                Thrown e t \<Rightarrow> Thrown e t
              | Done u s0 \<Rightarrow> highlight env s0 node)"
  using assms by (simp add: traceBack_def)

section \<open>Properties of the expansion\<close>

lemma add_records_ids:
  "set (map nid (add_records ns stored)) = set (map nid stored) \<union> set (map nid ns)"
  by (induction ns arbitrary: stored) auto

lemma add_records_distinct:
  "distinct (map nid stored) \<Longrightarrow> distinct (map nid (add_records ns stored))"
  by (induction ns arbitrary: stored) auto

lemma getIds_nodes_add:
  "set (getIds (nodes_add ns s)) = set (getIds s) \<union> set (map nid ns)"
  "distinct (getIds s) \<Longrightarrow> distinct (getIds (nodes_add ns s))"
  using add_records_ids [of ns "nodes s"] add_records_distinct [of "nodes s" ns]
  by (simp_all add: getIds_def nodes_add_def)

lemma getIds_edges_add [simp]: "getIds (edges_add es s) = getIds s"
  by (simp add: getIds_def edges_add_def)

lemma getIds_fold_updateNodeValue [simp]:
  "getIds (fold (\<lambda>subpage. updateNodeValue (f subpage)) links s) = getIds s"
  by (induction links arbitrary: s) simp_all

lemma one_record_per_id:
  "distinct (map key xs) \<Longrightarrow> k \<in> set (map key xs) \<Longrightarrow> length (filter (\<lambda>x. key x = k) xs) = 1"
proof (induction xs)
  case Nil
  then show ?case by simp
next
  case (Cons x xs)
  show ?case
  proof (cases "key x = k")
    case True
    with Cons.prems have "k \<notin> key ` set xs" by auto
    then have "filter (\<lambda>x. key x = k) xs = []" by (auto simp: filter_empty_conv)
    with True show ?thesis by simp
  next
    case False
    with Cons show ?thesis by auto
  qed
qed

lemma createNodeObjects_ids:
  assumes "createNodeObjects env s page lvl start i links (subnodes, newedges) = Inr (subnodes', newedges')"
  shows "set (map nid subnodes) \<subseteq> set (map nid subnodes') \<and>
         (\<forall>l \<in> set links. getNormalizedId env l \<in> set (getIds s) \<union> set (map nid subnodes'))"
  using assms
proof (induction links arbitrary: i subnodes newedges)
  case Nil
  then show ?case by simp
next
  case (Cons l links)
  show ?case
  proof (cases "getNormalizedId env l \<in> set (getIds s)")
    case True
    with Cons.prems obtain ne where
      "createNodeObjects env s page lvl start (Suc i) links (subnodes, ne) = Inr (subnodes', newedges')"
      by (auto simp: Let_def)
    from Cons.IH [OF this] True show ?thesis by auto
  next
    case False
    from Cons.prems False obtain decoded where dec: "decodeURIComponent env l = Some decoded"
      by (cases "decodeURIComponent env l") (auto simp: Let_def)
    define n :: node where "n =
      \<lparr>nid = getNormalizedId env l, label = wordwrap env decoded 15, level = lvl,
        parent = Some page, nvalue = 1, ncolor = getColor env lvl,
        pos_x = Some (fst start + fst (random_jitter env i)),
        pos_y = Some (snd start + snd (random_jitter env i)),
        font_color = None\<rparr>"
    define ne where "ne =
      (if getEdgeConnecting s page (getNormalizedId env l) = None
       then newedges @
         [\<lparr>eid = 0, efrom = page, eto = getNormalizedId env l, ecolor = Css (getEdgeColor env lvl),
           elevel = lvl, selectionWidth = 2, hoverWidth = 0, width = None\<rparr>]
       else newedges)"
    have n: "nid n = getNormalizedId env l" by (simp add: n_def)
    from Cons.prems False dec
    have rec: "createNodeObjects env s page lvl start (Suc i) links (subnodes @ [n], ne) = Inr (subnodes', newedges')"
      by (simp add: Let_def n_def ne_def)
    from Cons.IH [OF rec] n show ?thesis by auto
  qed
qed

lemma createNodeObjects_total:
  assumes "list_all (\<lambda>l. getNormalizedId env l \<in> set (getIds s) \<or> decodeURIComponent env l \<noteq> None) links"
  shows "\<exists>r. createNodeObjects env s page lvl start i links acc = Inr r"
  using assms
proof (induction links arbitrary: i acc)
  case Nil
  then show ?case by simp
next
  case (Cons l links)
  obtain subnodes newedges where acc: "acc = (subnodes, newedges)" by (cases acc)
  from Cons.prems have rest: "list_all (\<lambda>l. getNormalizedId env l \<in> set (getIds s) \<or> decodeURIComponent env l \<noteq> None) links"
    by simp
  from Cons.prems Cons.IH [OF rest] show ?case
    by (auto simp: acc Let_def split: option.splits)
qed

lemma expandNodeCallback_Done:
  assumes "expandNodeCallback env s page links = Done () s'" and "distinct (getIds s)"
  shows "distinct (getIds s') \<and> set (getIds s) \<subseteq> set (getIds s') \<and>
         (\<forall>l \<in> set links. getNormalizedId env l \<in> set (getIds s'))"
proof -
  from assms(1) obtain node :: node and subnodes newedges where
    c: "createNodeObjects env s page (level node + 1) (getSpawnPosition env page) 0 links ([], [])
          = Inr (subnodes, newedges)"
    and s': "s' = fold (\<lambda>subpage. updateNodeValue (getNormalizedId env subpage)) links
                    (updateNodeValue page (edges_add newedges (nodes_add subnodes s)))"
    by (auto simp: expandNodeCallback_def split: option.splits sum.splits)
  have ids: "getIds s' = getIds (nodes_add subnodes s)" by (simp add: s')
  from createNodeObjects_ids [OF c] getIds_nodes_add [where ns = subnodes and s = s] assms(2) show ?thesis
    unfolding ids by auto
qed

text \<open>
  Claim C2. Let the store hold each id once, let the expanded page be in it, and let
  every link that needs a new node have a decodable name. Then the expansion completes,
  the store still holds each id once, and for a link \<open>a\<close> of the list there is exactly
  one node with the id of \<open>a\<close>, which is also the id of any \<open>b\<close> that normalizes to
  the same id, whether \<open>b\<close> stands in the same list or not. A later expansion whose
  list contains \<open>b\<close> leaves exactly one node with that id as well.
\<close>

theorem expandNodeCallback_one_node_per_id:
  assumes "distinct (getIds s)"
    and "page \<in> set (getIds s)"
    and "list_all (\<lambda>l. getNormalizedId env l \<in> set (getIds s) \<or> decodeURIComponent env l \<noteq> None) links"
    and "a \<in> set links"
    and "getNormalizedId env b = getNormalizedId env a"
  shows "\<exists>s'. expandNodeCallback env s page links = Done () s' \<and>
           distinct (getIds s') \<and>
           length (filter (\<lambda>n. nid n = getNormalizedId env a) (nodes s')) = 1 \<and>
           length (filter (\<lambda>n. nid n = getNormalizedId env b) (nodes s')) = 1 \<and>
           (\<forall>page2 links2 s''. expandNodeCallback env s' page2 (b # links2) = Done () s'' \<longrightarrow>
              length (filter (\<lambda>n. nid n = getNormalizedId env a) (nodes s'')) = 1)"
proof -
  from assms(2) obtain node :: node where node: "nodes_get s page = Some node"
    using nodes_get_None [of s page] by (cases "nodes_get s page") auto
  from createNodeObjects_total [OF assms(3)] obtain r where
    "createNodeObjects env s page (level node + 1) (getSpawnPosition env page) 0 links ([], []) = Inr r"
    by blast
  with node obtain s' where d: "expandNodeCallback env s page links = Done () s'"
    by (cases r) (auto simp: expandNodeCallback_def)
  from expandNodeCallback_Done [OF d assms(1)] assms(4)
  have dist': "distinct (getIds s')" and a_in: "getNormalizedId env a \<in> set (getIds s')"
    by auto
  have one: "length (filter (\<lambda>n. nid n = getNormalizedId env a) (nodes s')) = 1"
    using one_record_per_id [of nid "nodes s'" "getNormalizedId env a"] dist' a_in
    by (simp add: getIds_def)
  have later: "length (filter (\<lambda>n. nid n = getNormalizedId env a) (nodes s'')) = 1"
    if "expandNodeCallback env s' page2 (b # links2) = Done () s''" for page2 links2 s''
  proof -
    from expandNodeCallback_Done [OF that dist'] assms(5)
    have "distinct (getIds s'')" and "getNormalizedId env a \<in> set (getIds s'')" by auto
    then show ?thesis
      using one_record_per_id [of nid "nodes s''" "getNormalizedId env a"]
      by (simp add: getIds_def)
  qed
  from d dist' one later assms(5) show ?thesis by auto
qed

theorem expandNodeCallback_one_node_per_id_witness:
  "distinct (getIds family) \<and>
   ''r'' \<in> set (getIds family) \<and>
   list_all (\<lambda>l. getNormalizedId demo_env l \<in> set (getIds family) \<or>
                  decodeURIComponent demo_env l \<noteq> None) [''a_b'', ''ab''] \<and>
   ''a_b'' \<in> set [''a_b'', ''ab''] \<and>
   getNormalizedId demo_env ''ab'' = getNormalizedId demo_env ''a_b'' \<and>
   (\<exists>s'. expandNodeCallback demo_env family ''r'' [''a_b'', ''ab''] = Done () s' \<and>
           distinct (getIds s') \<and>
           length (filter (\<lambda>n. nid n = getNormalizedId demo_env ''a_b'') (nodes s')) = 1 \<and>
           length (filter (\<lambda>n. nid n = getNormalizedId demo_env ''ab'') (nodes s')) = 1 \<and>
           (\<forall>page2 links2 s''.
              expandNodeCallback demo_env s' page2 (''ab'' # links2) = Done () s'' \<longrightarrow>
              length (filter (\<lambda>n. nid n = getNormalizedId demo_env ''a_b'') (nodes s'')) = 1))"
proof -
  have h1: "distinct (getIds family)" by code_simp
  have h2: "''r'' \<in> set (getIds family)" by code_simp
  have h3: "list_all (\<lambda>l. getNormalizedId demo_env l \<in> set (getIds family) \<or>
                  decodeURIComponent demo_env l \<noteq> None) [''a_b'', ''ab'']" by code_simp
  have h4: "''a_b'' \<in> set [''a_b'', ''ab'']" by simp
  have h5: "getNormalizedId demo_env ''ab'' = getNormalizedId demo_env ''a_b''" by code_simp
  from h1 h2 h3 h4 h5 expandNodeCallback_one_node_per_id [OF h1 h2 h3 h4 h5]
  show ?thesis by blast
qed

text \<open>
  A failed request rejects only with the people-only switch off; with the switch on it
  resolves to the page's own name and no links.
\<close>

lemma getSubPages_failure:
  "getSubPages False pageName Rejected = Rejected"
  "getSubPages True pageName Rejected = Resolved (pageName, [])"
  by (simp_all add: getSubPages_def)






section \<open>Properties of the removal\<close>

lemma removeAndResize_props:
  "n \<notin> set (getIds (removeAndResize s n))"
  "selectedNode (removeAndResize s n) = selectedNode s"
  "tracenodes (removeAndResize s n) = tracenodes s"
  "traceedges (removeAndResize s n) = traceedges s"
  "isReset (removeAndResize s n) = isReset s"
  by (simp_all add: removeAndResize_def Let_def) (auto simp: getIds_def)

text \<open>
  Claim C6. When the highlight is active and the node to remove is the selection or part
  of the trace, both revisions of the handler run the full reset first and remove the
  node from the state the reset produced. If the handler completes, the node is gone and
  neither the selection nor the trace refers to anything; if the reset throws, the node
  has not been removed. The handler completes whenever every edge points to a stored node.
\<close>

theorem removeNodeEvent_resets_first:
  assumes "\<not> isReset s" and "selectedNode s = Some n \<or> n \<in> set (tracenodes s)" and "n \<noteq> []"
  shows "removeNodeEvent env s (Some n)
           = (case resetProperties env s of
                Thrown e t \<Rightarrow> Thrown e t
              | Done u s1 \<Rightarrow> Done () (removeAndResize s1 n)) \<and>
         removeNodeEvent_guarded env s (Some n) = removeNodeEvent env s (Some n) \<and>
         (\<forall>s'. removeNodeEvent env s (Some n) = Done () s' \<longrightarrow>
            n \<notin> set (getIds s') \<and> selectedNode s' = None \<and> tracenodes s' = [] \<and>
            traceedges s' = [] \<and> isReset s') \<and>
         (\<forall>e t. removeNodeEvent env s (Some n) = Thrown e t \<longrightarrow> getIds t = getIds s) \<and>
         (list_all (\<lambda>e. eto e \<in> set (getIds s)) (edges s) \<longrightarrow>
            completed (removeNodeEvent env s (Some n)))"
proof -
  have eq: "removeNodeEvent env s (Some n)
           = (case resetProperties env s of
                Thrown e t \<Rightarrow> Thrown e t
              | Done u s1 \<Rightarrow> Done () (removeAndResize s1 n))"
    using assms by (simp add: removeNodeEvent_def)
  have g: "removeNodeEvent_guarded env s (Some n) = removeNodeEvent env s (Some n)"
    using assms by (simp add: removeNodeEvent_def removeNodeEvent_guarded_def)
  have d: "n \<notin> set (getIds s') \<and> selectedNode s' = None \<and> tracenodes s' = [] \<and>
            traceedges s' = [] \<and> isReset s'"
    if "removeNodeEvent env s (Some n) = Done () s'" for s'
  proof (cases "resetProperties env s")
    case (Done u s1)
    then have r: "resetProperties env s = Done () s1" by simp
    from that Done eq have "s' = removeAndResize s1 n" by simp
    with resetProperties_Done [OF r assms(1)] show ?thesis
      by (simp add: removeAndResize_props)
  next
    case (Thrown e t)
    with that eq show ?thesis by simp
  qed
  have t: "getIds t = getIds s" if "removeNodeEvent env s (Some n) = Thrown e t" for e t
  proof (cases "resetProperties env s")
    case (Done u s1)
    with that eq show ?thesis by simp
  next
    case (Thrown e' t')
    with that eq have "resetProperties env s = Thrown e t" by simp
    from resetProperties_Thrown [OF this] show ?thesis by simp
  qed
  have c: "completed (removeNodeEvent env s (Some n))"
    if "list_all (\<lambda>e. eto e \<in> set (getIds s)) (edges s)"
    using resetProperties_completes [OF that, of env] eq
    by (cases "resetProperties env s") simp_all
  from eq g d t c show ?thesis by blast
qed

theorem removeNodeEvent_resets_first_witness:
  "\<not> isReset family_traced \<and>
   (selectedNode family_traced = Some ''kid'' \<or> ''kid'' \<in> set (tracenodes family_traced)) \<and>
   ''kid'' \<noteq> [] \<and>
   list_all (\<lambda>e. eto e \<in> set (getIds family_traced)) (edges family_traced) \<and>
   completed (removeNodeEvent demo_env family_traced (Some ''kid'')) \<and>
   removeNodeEvent_guarded demo_env family_traced (Some ''kid'')
     = removeNodeEvent demo_env family_traced (Some ''kid'')"
proof -
  have h1: "\<not> isReset family_traced" by code_simp
  have h2: "selectedNode family_traced = Some ''kid'' \<or> ''kid'' \<in> set (tracenodes family_traced)"
    by code_simp
  have h3: "''kid'' \<noteq> []" by simp
  have w: "list_all (\<lambda>e. eto e \<in> set (getIds family_traced)) (edges family_traced)"
    by code_simp
  note inst = removeNodeEvent_resets_first [OF h1 h2 h3, of demo_env]
  from inst w have c: "completed (removeNodeEvent demo_env family_traced (Some ''kid''))"
    by blast
  from inst have g: "removeNodeEvent_guarded demo_env family_traced (Some ''kid'')
     = removeNodeEvent demo_env family_traced (Some ''kid'')" by blast
  from h1 h2 h3 w c g show ?thesis by blast
qed

text \<open>The button that removes the selected node resets first as well.\<close>

lemma removeSelectedClick_resets_first:
  assumes "selectedNode s = Some n" and "n \<noteq> []"
  shows "removeSelectedClick env s
           = (case resetProperties env s of
                Thrown e t \<Rightarrow> Thrown e t
              | Done u s1 \<Rightarrow>
                  Done ()
                    (fold updateNodeValue (getConnectedNodes s n)
                       ((nodes_remove n s1)\<lparr>selectedNode := None, lastClickedNode := None\<rparr>)))"
    and "removeSelectedClick env s = Done () s' \<Longrightarrow>
           n \<notin> set (getIds s') \<and> selectedNode s' = None"
proof -
  show eq: "removeSelectedClick env s
           = (case resetProperties env s of
                Thrown e t \<Rightarrow> Thrown e t
              | Done u s1 \<Rightarrow>
                  Done ()
                    (fold updateNodeValue (getConnectedNodes s n)
                       ((nodes_remove n s1)\<lparr>selectedNode := None, lastClickedNode := None\<rparr>)))"
    using assms by (simp add: removeSelectedClick_def)
  assume "removeSelectedClick env s = Done () s'"
  with eq obtain s1 where
    "s' = fold updateNodeValue (getConnectedNodes s n)
            ((nodes_remove n s1)\<lparr>selectedNode := None, lastClickedNode := None\<rparr>)"
    by (cases "resetProperties env s") simp_all
  then have "getIds s' = getIds (nodes_remove n s1)" and "selectedNode s' = None"
    by simp_all
  then show "n \<notin> set (getIds s') \<and> selectedNode s' = None"
    by (auto simp: getIds_def)
qed

section \<open>An invariant of the highlight variables\<close>

text \<open>
  The initial state has nothing selected and nothing traced, and its flag says reset.
  Every operation keeps the rule that a state flagged reset has nothing selected or
  traced, whether it completes or throws.
\<close>

lemma nodes_add_fields [simp]:
  "edges (nodes_add ns s) = edges s"
  "isReset (nodes_add ns s) = isReset s"
  "selectedNode (nodes_add ns s) = selectedNode s"
  "traceedges (nodes_add ns s) = traceedges s"
  "tracenodes (nodes_add ns s) = tracenodes s"
  "startpages (nodes_add ns s) = startpages s"
  "lastClickedNode (nodes_add ns s) = lastClickedNode s"
  by (simp_all add: nodes_add_def)

lemma edges_add_fields [simp]:
  "nodes (edges_add es s) = nodes s"
  "isReset (edges_add es s) = isReset s"
  "selectedNode (edges_add es s) = selectedNode s"
  "traceedges (edges_add es s) = traceedges s"
  "tracenodes (edges_add es s) = tracenodes s"
  "startpages (edges_add es s) = startpages s"
  "lastClickedNode (edges_add es s) = lastClickedNode s"
  by (simp_all add: edges_add_def)

lemma fold_updateNodeValue_named_fields [simp]:
  "isReset (fold (\<lambda>subpage. updateNodeValue (f subpage)) links s) = isReset s"
  "selectedNode (fold (\<lambda>subpage. updateNodeValue (f subpage)) links s) = selectedNode s"
  "traceedges (fold (\<lambda>subpage. updateNodeValue (f subpage)) links s) = traceedges s"
  "tracenodes (fold (\<lambda>subpage. updateNodeValue (f subpage)) links s) = tracenodes s"
  by (induction links arbitrary: s; simp)+

lemma resetMeansClear_initial: "resetMeansClear (mk_state ns es roots)"
  by (simp add: resetMeansClear_def mk_state_def)

lemma resetMeansClear_resetProperties:
  assumes "resetMeansClear s"
  shows "resetMeansClear (final (resetProperties env s))"
proof (cases "isReset s")
  case True
  with assms show ?thesis by (simp add: resetProperties_def)
next
  case False
  then show ?thesis
    by (auto simp: resetProperties_unfold resetMeansClear_def split: sum.splits)
qed

lemma resetMeansClear_highlight: "resetMeansClear (final (highlight env s node))"
  by (auto simp: highlight_def Let_def resetMeansClear_def split: sum.splits option.splits)

lemma resetMeansClear_traceBack:
  assumes "resetMeansClear s"
  shows "resetMeansClear (final (traceBack env s node))"
proof (cases "selectedNode s = Some node")
  case True
  with assms show ?thesis by (simp add: traceBack_def)
next
  case False
  show ?thesis
  proof (cases "resetProperties env s")
    case (Done u s0)
    with False resetMeansClear_highlight [of env s0 node] show ?thesis
      by (simp add: traceBack_def)
  next
    case (Thrown e t)
    with resetMeansClear_resetProperties [OF assms, of env] False show ?thesis
      by (simp add: traceBack_def)
  qed
qed

lemma resetMeansClear_renameNode:
  assumes "resetMeansClear s"
  shows "resetMeansClear (final (renameNode env s oldId newName))"
  using assms
  by (auto simp: renameNode_def Let_def mergeOrReidentify_def moveHighlight_def
      resetMeansClear_def split: option.splits)

lemma resetMeansClear_expandNodeCallback:
  assumes "resetMeansClear s"
  shows "resetMeansClear (final (expandNodeCallback env s page links))"
  using assms
  by (auto simp: expandNodeCallback_def resetMeansClear_def split: option.splits sum.splits)

lemma resetMeansClear_removeNodeEvent:
  assumes "resetMeansClear s"
  shows "resetMeansClear (final (removeNodeEvent env s nodeAt))"
    and "resetMeansClear (final (removeNodeEvent_guarded env s nodeAt))"
proof -
  have keep: "resetMeansClear (removeAndResize t n) = resetMeansClear t" for t n
    by (simp add: resetMeansClear_def removeAndResize_props)
  have r: "resetMeansClear (final (case r of Thrown e t \<Rightarrow> Thrown e t
                                    | Done u s1 \<Rightarrow> Done () (removeAndResize s1 n)))
      = resetMeansClear (final r)" for r :: "unit result" and n
    by (cases r) (simp_all add: keep)
  show "resetMeansClear (final (removeNodeEvent env s nodeAt))"
    using assms resetMeansClear_resetProperties [OF assms, of env]
    by (auto simp: removeNodeEvent_def r keep split: option.splits)
  show "resetMeansClear (final (removeNodeEvent_guarded env s nodeAt))"
    using assms resetMeansClear_resetProperties [OF assms, of env]
    by (auto simp: removeNodeEvent_guarded_def r keep split: option.splits)
qed

end
